theory Spec2Isabelle
  imports Main "HOL-Library.Char_ord" "HOL-Library.List_Lexorder"
begin

section \<open>A shallow embedding of the VCD writer (src/src/vcd_writer.cpp)\<close>

text \<open>
  The embedding follows the C++ source function by function. A \<open>std::string\<close> is a
  \<open>string\<close> (a list of bytes, NUL included); \<open>unsigned\<close> and \<open>size_t\<close> values are
  natural numbers, and the places where the source's arithmetic wraps around are written
  out with \<open>mod\<close>. Every \<open>throw\<close> is a value of \<open>exn\<close>; reads and writes the C++
  standard leaves undefined are the value \<open>UndefinedBehaviour\<close>, and a loop that never
  ends is the value \<open>NonTermination\<close>.
\<close>

subsection \<open>Exceptions\<close>

datatype type_error =
    InvalidScalarValue | InvalidStringValue | InvalidVectorValue
  | EmptyScopeOrName | MustSupplySize | DuplicateVar | InvalidVCDVariable | NotRegistered

datatype phase_error =
    RegisterAfterClose | RegisteringFinished | CannotInsertScope
  | OutOfOrder | ChangeAfterClose | VarDoesNotExist | ScopeDoesNotExist

datatype exn =
    VCDTypeException type_error
  | VCDPhaseException phase_error
  | StdInvalidArgument
  | StdOutOfRange
  | AssertionFailed
  | UndefinedBehaviour
  | NonTermination

subsection \<open>Characters and strings\<close>

text \<open>Modelled from the spec: the enumeration \<open>VCDValues\<close> is declared in
  \<open>vcd_writer.h\<close>, which is not part of the sources; the spec gives the four states
  as the characters 0, 1, x and z.\<close>

definition ONE :: char where "ONE = CHR ''1''"
definition ZERO :: char where "ZERO = CHR ''0''"
definition UNDEF :: char where "UNDEF = CHR ''x''"
definition HIGHV :: char where "HIGHV = CHR ''z''"

text \<open>\<open>tolower\<close> of the C locale: the 26 upper-case letters, every other byte unchanged.\<close>

definition tolower :: "char \<Rightarrow> char" where
  "tolower c =
     (case map_of (zip ''ABCDEFGHIJKLMNOPQRSTUVWXYZ'' ''abcdefghijklmnopqrstuvwxyz'') c of
        None \<Rightarrow> c | Some l \<Rightarrow> l)"

text \<open>\<open>c_str()\<close> read as a C string: the bytes before the first NUL.\<close>

definition c_str :: "string \<Rightarrow> string" where
  "c_str s = takeWhile (\<lambda>c. c \<noteq> CHR 0x00) s"

text \<open>\<open>std::strncmp(a.c_str(), b.c_str(), n) == 0\<close>.\<close>

definition strncmp_eq :: "string \<Rightarrow> string \<Rightarrow> nat \<Rightarrow> bool" where
  "strncmp_eq a b n = (take n (c_str a) = take n (c_str b))"

text \<open>\<open>s.find(sep, pos)\<close>; \<open>None\<close> is \<open>std::string::npos\<close>. An empty \<open>sep\<close> is
  found at \<open>pos\<close> itself whenever \<open>pos \<le> s.size()\<close>.\<close>

fun find_at :: "string \<Rightarrow> string \<Rightarrow> nat \<Rightarrow> nat option" where
  "find_at [] sep i = (if sep = [] then Some i else None)"
| "find_at (c # cs) sep i =
     (if take (length sep) (c # cs) = sep then Some i else find_at cs sep (Suc i))"

definition string_find :: "string \<Rightarrow> string \<Rightarrow> nat \<Rightarrow> nat option" where
  "string_find s sep pos = (if length s < pos then None else find_at (drop pos s) sep pos)"

text \<open>\<open>s.substr(pos, count)\<close>, which throws \<open>std::out_of_range\<close> when
  \<open>pos > s.size()\<close>. The count \<open>None\<close> stands for a count that reaches the end of the
  string, as \<open>npos - pos\<close> does.\<close>

definition substr :: "string \<Rightarrow> nat \<Rightarrow> nat option \<Rightarrow> exn + string" where
  "substr s pos count =
     (if length s < pos then Inl StdOutOfRange
      else Inr (case count of None \<Rightarrow> drop pos s | Some len \<Rightarrow> take len (drop pos s)))"

text \<open>\<open>s.resize(n)\<close>: truncates, or fills with NUL bytes.\<close>

definition resize :: "string \<Rightarrow> nat \<Rightarrow> string" where
  "resize s n = take n s @ replicate (n - length s) (CHR 0x00)"

subsection \<open>The encoders: \<open>change_record\<close> of each variable class\<close>

text \<open>\<open>VCDScalarVariable::change_record\<close>.\<close>

definition scalar_change_record :: "string \<Rightarrow> exn + string" where
  "scalar_change_record value =
     (let c = (if length value \<noteq> 0 then tolower (hd value) else UNDEF)
      in if length value \<noteq> 1 \<or> (c \<noteq> ONE \<and> c \<noteq> ZERO \<and> c \<noteq> UNDEF \<and> c \<noteq> HIGHV)
         then Inl (VCDTypeException InvalidScalarValue)
         else Inr [c])"

text \<open>\<open>VCDStringVariable::change_record\<close>; \<open>format("s%s ", value.c_str())\<close> prints the
  value as a C string.\<close>

definition string_change_record :: "string \<Rightarrow> exn + string" where
  "string_change_record value =
     (if CHR '' '' \<in> set value then Inl (VCDTypeException InvalidStringValue)
      else Inr (''s'' @ c_str value @ '' ''))"

text \<open>\<open>VCDRealVariable::change_record\<close> is \<open>format("r%.16g ", stod(value))\<close>. Floating
  point is not modelled: the parameter \<open>stod_g16\<close> stands for the text that \<open>%.16g\<close>
  prints for \<open>stod(value)\<close>, or for the exception that \<open>stod\<close> throws.\<close>

definition real_change_record :: "(string \<Rightarrow> exn + string) \<Rightarrow> string \<Rightarrow> exn + string" where
  "real_change_record stod_g16 value =
     (case stod_g16 value of Inl e \<Rightarrow> Inl e | Inr d \<Rightarrow> Inr (''r'' @ d @ '' ''))"

text \<open>\<open>VCDVectorVariable::change_record\<close>. The three loops of the source, on the buffer
  \<open>val\<close>. The checking loop runs \<open>for (auto i = 1u; i < (val_sz - 1); ++i)\<close>; its bound
  \<open>val_sz - 1\<close> is computed in \<open>size_t\<close> and is passed in here already wrapped.
  Reading \<open>val[val.size()]\<close> yields NUL; any index beyond that is undefined.\<close>

function validate_loop :: "string \<Rightarrow> nat \<Rightarrow> nat \<Rightarrow> exn + string" where
  "validate_loop val i bound =
     (if i < bound then
        (if i < length val then
           (let val' = val[i := tolower (val ! i)]
            in if val' ! i = ONE \<or> val' ! i = ZERO \<or> val' ! i = UNDEF \<or> val' ! i = HIGHV
               then validate_loop val' (i + 1) bound
               else Inl (VCDTypeException InvalidVectorValue))
         else if i = length val then Inl (VCDTypeException InvalidVectorValue)
         else Inl UndefinedBehaviour)
      else Inr val)"
  by pat_completeness auto
termination
  by (relation "measure (\<lambda>(val, i, bound). bound - i)") auto

text \<open>\<open>for (auto i = val_sz; i >= 1; --i) val[k + i] = val[i];\<close>\<close>

fun shift_loop :: "string \<Rightarrow> nat \<Rightarrow> nat \<Rightarrow> exn + string" where
  "shift_loop val k 0 = Inr val"
| "shift_loop val k (Suc j) =
     (if k + Suc j < length val then shift_loop (val[k + Suc j := val ! Suc j]) k j
      else Inl UndefinedBehaviour)"

text \<open>\<open>for (auto i = 1u; i <= k; ++i) val[i] = VCDValues::ZERO;\<close>\<close>

function zero_loop :: "string \<Rightarrow> nat \<Rightarrow> nat \<Rightarrow> exn + string" where
  "zero_loop val i k =
     (if i \<le> k then
        (if i < length val then zero_loop (val[i := ZERO]) (i + 1) k
         else Inl UndefinedBehaviour)
      else Inr val)"
  by pat_completeness auto
termination
  by (relation "measure (\<lambda>(val, i, k). Suc k - i)") auto

text \<open>The alignment branch: \<open>val.resize(_size + 2)\<close> and \<open>val[_size+1] = ' '\<close> compute
  their argument in \<open>unsigned\<close> (32 bits).\<close>

definition align :: "string \<Rightarrow> nat \<Rightarrow> nat \<Rightarrow> exn + string" where
  "align val size' val_sz =
     (let val1 = resize val ((size' + 2) mod 2 ^ 32);
          k = size' - val_sz
      in case shift_loop val1 k val_sz of
           Inl e \<Rightarrow> Inl e
         | Inr val2 \<Rightarrow>
             (case zero_loop val2 1 k of
                Inl e \<Rightarrow> Inl e
              | Inr val3 \<Rightarrow>
                  (if (size' + 1) mod 2 ^ 32 < length val3
                   then Inr (val3[(size' + 1) mod 2 ^ 32 := CHR '' ''])
                   else Inl UndefinedBehaviour)))"

definition vector_change_record :: "nat \<Rightarrow> string \<Rightarrow> exn + string" where
  "vector_change_record size' value =
     (if size' < length value then Inl (VCDTypeException InvalidVectorValue)
      else
        (let val_sz = length value
         in case validate_loop (''b'' @ value @ '' '') 1 ((val_sz + 2 ^ 64 - 1) mod 2 ^ 64) of
              Inl e \<Rightarrow> Inl e
            | Inr val \<Rightarrow>
                if val_sz = 0 then Inr (''b'' @ replicate size' UNDEF @ '' '')
                else if val_sz < size' then align val size' val_sz
                else Inr val))"

declare validate_loop.simps [simp del] zero_loop.simps [simp del]

subsection \<open>Variables, scopes, header\<close>

text \<open>The members of \<open>enum class VariableType\<close>, in the order of the table
  \<open>VCDVariable::VAR_TYPES\<close>, and of \<open>enum class ScopeType\<close>, in the order of the table
  \<open>SCOPE_TYPES\<close> (begin, fork, function, module, task).\<close>

datatype VariableType =
    wire | reg | string | parameter | integer | real | realtime | time | event
  | supply0 | supply1 | tri | triand | trior | trireg | tri0 | tri1 | wand | wor

datatype ScopeType = sc_begin | sc_fork | sc_function | sc_module | sc_task

text \<open>The four subclasses of \<open>VCDVariable\<close>; the class decides which \<open>change_record\<close>
  a virtual call reaches.\<close>

datatype var_class = VCDScalarVariable | VCDStringVariable | VCDRealVariable | VCDVectorVariable

text \<open>\<open>class VCDVariable\<close>. The weak pointer \<open>_scope\<close> is only ever dereferenced for the
  scope's name, which never changes, so the field \<open>v_scope\<close> holds that name.\<close>

record VCDVariable =
  v_ident :: nat
  v_type :: VariableType
  v_name :: string
  v_size :: nat
  v_scope :: string
  v_class :: var_class

record VCDScope =
  s_name :: string
  s_type :: ScopeType
  s_vars :: "VCDVariable list"

text \<open>\<open>struct VCDHeader\<close>: the four entries of \<open>kw_values\<close>.\<close>

record VCDHeader =
  h_timescale :: string
  h_date :: string
  h_comment :: string
  h_version :: string

definition kw_names :: "string list" where
  "kw_names = [''$timescale'', ''$date'', ''$comment'', ''$version'']"

definition kw_values :: "VCDHeader \<Rightarrow> string list" where
  "kw_values h = [h_timescale h, h_date h, h_comment h, h_version h]"

text \<open>\<open>VarPtrEqual\<close>: two variables are the same key when name and scope name agree.\<close>

definition VarPtrEqual :: "VCDVariable \<Rightarrow> VCDVariable \<Rightarrow> bool" where
  "VarPtrEqual a b = (v_name a = v_name b \<and> v_scope a = v_scope b)"

text \<open>The virtual call \<open>var->change_record(value)\<close>.\<close>

definition change_record ::
  "(string \<Rightarrow> exn + string) \<Rightarrow> VCDVariable \<Rightarrow> string \<Rightarrow> exn + string" where
  "change_record stod_g16 var value =
     (case v_class var of
        VCDScalarVariable \<Rightarrow> scalar_change_record value
      | VCDStringVariable \<Rightarrow> string_change_record value
      | VCDRealVariable \<Rightarrow> real_change_record stod_g16 value
      | VCDVectorVariable \<Rightarrow> vector_change_record (v_size var) value)"

subsection \<open>The sink\<close>

text \<open>The output file is the sequence of the \<open>_ofile.print\<close> calls made so far, one
  constructor for each call site, holding the arguments of the call:
  \<^item> \<open>Print_kw\<close>: \<open>"{:s} {:s} $end\\n"\<close> in \<open>_write_header\<close>;
  \<^item> \<open>Print_scope\<close>: \<open>"$scope {:s} {:s} $end\\n"\<close> in \<open>_scope_declaration\<close>;
  \<^item> \<open>Print_var\<close>: \<open>"{:s}\\n"\<close> of \<open>var->declartion()\<close>, which formats type, size,
    identifier and name of the variable;
  \<^item> \<open>Print_upscope\<close>: \<open>"$upscope $end\\n"\<close>; \<open>Print_enddefinitions\<close>:
    \<open>"$enddefinitions $end\\n"\<close>;
  \<^item> \<open>Print_time\<close>: \<open>"#{:d}\\n"\<close>;
  \<^item> \<open>Print_keyword\<close>: \<open>"{:s}\\n"\<close> in \<open>_dump_values\<close>; \<open>Print_dumpoff\<close>:
    \<open>"$dumpoff\\n"\<close>; \<open>Print_end\<close>: \<open>"$end\\n"\<close>;
  \<^item> \<open>Print_value\<close>: \<open>"{:s}{:x}\\n"\<close> in \<open>_dump_values\<close>; \<open>Print_bx\<close>: \<open>"bx {:x}\\n"\<close>
    and \<open>Print_x\<close>: \<open>"x{:x}\\n"\<close> in \<open>_dump_off\<close>;
  \<^item> \<open>Print_change\<close>: \<open>"{:s}{:x}\\n"\<close> in \<open>_change\<close>, the value-change record.
\<close>

datatype out_line =
    Print_kw string string
  | Print_scope ScopeType string
  | Print_var VCDVariable
  | Print_upscope
  | Print_enddefinitions
  | Print_time nat
  | Print_keyword string
  | Print_dumpoff
  | Print_end
  | Print_value string nat
  | Print_bx nat
  | Print_x nat
  | Print_change string nat

subsection \<open>The writer\<close>

text \<open>\<open>class VCDWriter\<close>. \<open>scopes\<close> is the \<open>std::set\<close> ordered by \<open>ScopePtrHash\<close>
  (scope names compared with \<open>std::string\<close>'s \<open>operator<\<close>), kept as the list that
  iteration over the set yields. \<open>vars\<close> is the \<open>std::unordered_set\<close> and
  \<open>vars_prevs\<close> the \<open>std::unordered_map\<close> keyed with \<open>VarPtrEqual\<close>; the order in
  which C++ iterates over them is unspecified, the lists keep insertion order. The
  scratch key \<open>_search\<close> and the file name carry no state of their own and are left
  out. \<open>fin_calls\<close> is not a member of the class: it counts the calls of
  \<open>_finalize_registration\<close> and is read by no operation.\<close>

record VCDWriter =
  timestamp :: nat
  header :: "VCDHeader option"
  scope_sep :: string
  scope_def_type :: ScopeType
  dumping :: bool
  registering :: bool
  closed :: bool
  next_var_id :: nat
  scopes :: "VCDScope list"
  vars :: "VCDVariable list"
  vars_prevs :: "(VCDVariable \<times> string) list"
  ofile :: "out_line list"
  fin_calls :: nat

text \<open>The constructor. Modelled from the spec: the default member initialisers of
  \<open>_closed\<close> and \<open>_next_var_id\<close> are in \<open>vcd_writer.h\<close>, which is not part of the
  sources; the spec has the engine start in the registering state, not closed, and
  identifiers assigned sequentially, here from 0. The header argument is the header
  the writer ends up owning (the caller's, or the default of \<open>makeVCDHeader()\<close>).\<close>

definition VCDWriter_new :: "VCDHeader \<Rightarrow> nat \<Rightarrow> VCDWriter" where
  "VCDWriter_new hdr init_timestamp =
     \<lparr> timestamp = init_timestamp, header = Some hdr, scope_sep = ''.'',
       scope_def_type = sc_module, dumping = True, registering = True, closed = False,
       next_var_id = 0, scopes = [], vars = [], vars_prevs = [], ofile = [], fin_calls = 0 \<rparr>"

definition print :: "out_line \<Rightarrow> VCDWriter \<Rightarrow> VCDWriter" where
  "print l w = w\<lparr>ofile := ofile w @ [l]\<rparr>"

text \<open>Lookups in the three containers.\<close>

definition scopes_find :: "VCDScope list \<Rightarrow> string \<Rightarrow> VCDScope option" where
  "scopes_find ss nm = List.find (\<lambda>s. s_name s = nm) ss"

definition vars_find :: "VCDVariable list \<Rightarrow> VCDVariable \<Rightarrow> VCDVariable option" where
  "vars_find vs key = List.find (\<lambda>v. VarPtrEqual v key) vs"

definition vars_prevs_find ::
  "(VCDVariable \<times> string) list \<Rightarrow> VCDVariable \<Rightarrow> (VCDVariable \<times> string) option" where
  "vars_prevs_find ps key = List.find (\<lambda>p. VarPtrEqual (fst p) key) ps"

text \<open>\<open>it->second = change_value\<close> on the entry that \<open>find\<close> returned.\<close>

fun vars_prevs_assign ::
  "(VCDVariable \<times> string) list \<Rightarrow> VCDVariable \<Rightarrow> string \<Rightarrow> (VCDVariable \<times> string) list" where
  "vars_prevs_assign [] key v = []"
| "vars_prevs_assign (p # ps) key v =
     (if VarPtrEqual (fst p) key then (fst p, v) # ps else p # vars_prevs_assign ps key v)"

subsection \<open>Writing the header and the declarations: \<open>_write_header\<close>\<close>

text \<open>Modelled from the spec: \<open>utils::replace_new_lines\<close> is declared at the top of the
  source and defined elsewhere; the spec has every embedded newline of a header value
  replaced (here by the argument \<open>sub\<close>, which the caller sets to newline and tab).\<close>

definition replace_new_lines :: "string \<Rightarrow> string \<Rightarrow> string" where
  "replace_new_lines str sub = concat (map (\<lambda>c. if c = CHR 0x0A then sub else [c]) str)"

text \<open>The first loop of \<open>_write_header\<close>, over the four header keywords.\<close>

definition header_lines :: "VCDHeader \<Rightarrow> out_line list" where
  "header_lines h =
     concat (map (\<lambda>(kwname, kwvalue).
                    if kwvalue = [] then []
                    else [Print_kw kwname (replace_new_lines kwvalue [CHR 0x0A, CHR 0x09])])
                 (zip kw_names (kw_values h)))"

text \<open>\<open>_scope_declaration(scope, type, sub_beg, sub_end)\<close> prints
  \<open>scope.substr(sub_beg, sub_end - sub_beg)\<close>; the subtraction is in \<open>size_t\<close>, so a
  \<open>sub_end\<close> below \<open>sub_beg\<close> wraps to a count that reaches the end of the string.
  Modelled from the spec: the default argument of \<open>sub_end\<close>, used by the calls with
  three arguments, is declared in \<open>vcd_writer.h\<close>; the spec has the last segment of a
  path opened down to the end of the path, which is \<open>npos\<close>, here \<open>None\<close>.\<close>

definition scope_declaration ::
  "string \<Rightarrow> ScopeType \<Rightarrow> nat \<Rightarrow> nat option \<Rightarrow> out_line list \<Rightarrow> (exn + unit) \<times> out_line list" where
  "scope_declaration scope type' sub_beg sub_end out =
     (case substr scope sub_beg
             (case sub_end of None \<Rightarrow> None
              | Some e \<Rightarrow> if e < sub_beg then None else Some (e - sub_beg)) of
        Inl e \<Rightarrow> (Inl e, out)
      | Inr scope_name \<Rightarrow> (Inr (), out @ [Print_scope type' scope_name]))"

text \<open>The loop \<open>while (std::strncmp(scope.c_str(), scope_prev.c_str(), n) == 0)\<close>. It
  returns \<open>n_prev\<close>; \<open>n\<close> is overwritten before its next use. With an empty separator
  \<open>find\<close> returns its own start position and the loop never ends.\<close>

function equal_prefix :: "string \<Rightarrow> string \<Rightarrow> string \<Rightarrow> nat \<Rightarrow> nat \<Rightarrow> exn + nat" where
  "equal_prefix sep scope scope_prev n n_prev =
     (if strncmp_eq scope scope_prev n then
        (case string_find scope_prev sep (n + length sep) of
           None \<Rightarrow> Inr (n + length sep)
         | Some n' \<Rightarrow>
             if sep = [] then Inl NonTermination
             else equal_prefix sep scope scope_prev n' (n + length sep))
      else Inr n_prev)"
  by pat_completeness auto
termination
proof (relation "measure (\<lambda>(sep, scope, scope_prev, n, n_prev). length scope_prev - n)")
  show "wf (measure (\<lambda>(sep, scope, scope_prev, n, n_prev). length scope_prev - n))" by simp
next
  fix sep scope scope_prev :: string and n n_prev n' :: nat
  assume f: "string_find scope_prev sep (n + length sep) = Some n'" and ne: "sep \<noteq> []"
  have b: "i \<le> j \<and> j + length sep \<le> i + length cs" if "find_at cs sep i = Some j" for cs i j
    using that
  proof (induction cs arbitrary: i)
    case Nil
    then show ?case by (simp split: if_splits)
  next
    case (Cons c cs)
    show ?case
    proof (cases "take (length sep) (c # cs) = sep")
      case True
      then have "length sep \<le> length (c # cs)" by (metis length_take min.cobounded1)
      with True Cons.prems show ?thesis by simp
    next
      case False
      with Cons.prems have "find_at cs sep (Suc i) = Some j" by simp
      from Cons.IH[OF this] show ?thesis by simp
    qed
  qed
  from f have "n + length sep \<le> n' \<and> n' + length sep \<le> length scope_prev"
    using b[of "drop (n + length sep) scope_prev" "n + length sep" n']
    by (auto simp: string_find_def split: if_splits)
  with ne have "n < n' \<and> n' < length scope_prev" by (cases sep) auto
  then show "((sep, scope, scope_prev, n', n + length sep), (sep, scope, scope_prev, n, n_prev))
      \<in> measure (\<lambda>(sep, scope, scope_prev, n, n_prev). length scope_prev - n)"
    by (auto intro: diff_less_mono2)
qed

text \<open>The loop \<open>while (n != std::string::npos)\<close> that prints one \<open>$upscope\<close> for each
  separator of \<open>scope_prev\<close> from \<open>n\<close> on.\<close>

function close_loop ::
  "string \<Rightarrow> string \<Rightarrow> nat option \<Rightarrow> out_line list \<Rightarrow> (exn + unit) \<times> out_line list" where
  "close_loop sep scope_prev n out =
     (case n of
        None \<Rightarrow> (Inr (), out)
      | Some k \<Rightarrow>
          (case string_find scope_prev sep (k + length sep) of
             None \<Rightarrow> (Inr (), out @ [Print_upscope])
           | Some k' \<Rightarrow>
               if sep = [] then (Inl NonTermination, out @ [Print_upscope])
               else close_loop sep scope_prev (Some k') (out @ [Print_upscope])))"
  by pat_completeness auto
termination
proof (relation "measure (\<lambda>(sep, scope_prev, n, out).
                   case n of None \<Rightarrow> 0 | Some k \<Rightarrow> length scope_prev - k)")
  show "wf (measure (\<lambda>(sep, scope_prev, n, out).
                   case n of None \<Rightarrow> 0 | Some k \<Rightarrow> length scope_prev - k))" by simp
next
  fix sep scope_prev :: string and n :: "nat option" and out :: "out_line list" and k k' :: nat
  assume f: "string_find scope_prev sep (k + length sep) = Some k'" and ne: "sep \<noteq> []"
    and n: "n = Some k"
  have b: "i \<le> j \<and> j + length sep \<le> i + length cs" if "find_at cs sep i = Some j" for cs i j
    using that
  proof (induction cs arbitrary: i)
    case Nil
    then show ?case by (simp split: if_splits)
  next
    case (Cons c cs)
    show ?case
    proof (cases "take (length sep) (c # cs) = sep")
      case True
      then have "length sep \<le> length (c # cs)" by (metis length_take min.cobounded1)
      with True Cons.prems show ?thesis by simp
    next
      case False
      with Cons.prems have "find_at cs sep (Suc i) = Some j" by simp
      from Cons.IH[OF this] show ?thesis by simp
    qed
  qed
  from f have "k + length sep \<le> k' \<and> k' + length sep \<le> length scope_prev"
    using b[of "drop (k + length sep) scope_prev" "k + length sep" k']
    by (auto simp: string_find_def split: if_splits)
  with ne have "k < k' \<and> k' < length scope_prev" by (cases sep) auto
  then show "((sep, scope_prev, Some k', out @ [Print_upscope]), (sep, scope_prev, n, out))
      \<in> measure (\<lambda>(sep, scope_prev, n, out).
                   case n of None \<Rightarrow> 0 | Some k \<Rightarrow> length scope_prev - k)"
    using n by (auto intro: diff_less_mono2)
qed

text \<open>The loop that opens the segments of \<open>scope\<close> from \<open>n_prev\<close> on, one
  \<open>_scope_declaration(scope, type, n_prev, n)\<close> for each separator found. It returns
  \<open>n_prev\<close>.\<close>

function open_loop ::
  "string \<Rightarrow> string \<Rightarrow> ScopeType \<Rightarrow> nat option \<Rightarrow> nat \<Rightarrow> out_line list
   \<Rightarrow> (exn + nat) \<times> out_line list" where
  "open_loop sep scope type' n n_prev out =
     (case n of
        None \<Rightarrow> (Inr n_prev, out)
      | Some k \<Rightarrow>
          (case scope_declaration scope type' n_prev (Some k) out of
             (Inl e, out1) \<Rightarrow> (Inl e, out1)
           | (Inr u, out1) \<Rightarrow>
               (case string_find scope sep (k + length sep) of
                  None \<Rightarrow> (Inr (k + length sep), out1)
                | Some k' \<Rightarrow>
                    if sep = [] then (Inl NonTermination, out1)
                    else open_loop sep scope type' (Some k') (k + length sep) out1)))"
  by pat_completeness auto
termination
proof (relation "measure (\<lambda>(sep, scope, type', n, n_prev, out).
                   case n of None \<Rightarrow> 0 | Some k \<Rightarrow> length scope - k)")
  show "wf (measure (\<lambda>(sep, scope, type', n, n_prev, out).
                   case n of None \<Rightarrow> 0 | Some k \<Rightarrow> length scope - k))" by simp
next
  fix sep scope :: string and type' :: ScopeType and n :: "nat option" and n_prev k k' :: nat
    and out out1 :: "out_line list" and x :: "(exn + unit) \<times> out_line list" and u :: unit
    and y :: "exn + unit"
  assume f: "string_find scope sep (k + length sep) = Some k'" and ne: "sep \<noteq> []"
    and n: "n = Some k"
  have b: "i \<le> j \<and> j + length sep \<le> i + length cs" if "find_at cs sep i = Some j" for cs i j
    using that
  proof (induction cs arbitrary: i)
    case Nil
    then show ?case by (simp split: if_splits)
  next
    case (Cons c cs)
    show ?case
    proof (cases "take (length sep) (c # cs) = sep")
      case True
      then have "length sep \<le> length (c # cs)" by (metis length_take min.cobounded1)
      with True Cons.prems show ?thesis by simp
    next
      case False
      with Cons.prems have "find_at cs sep (Suc i) = Some j" by simp
      from Cons.IH[OF this] show ?thesis by simp
    qed
  qed
  from f have "k + length sep \<le> k' \<and> k' + length sep \<le> length scope"
    using b[of "drop (k + length sep) scope" "k + length sep" k']
    by (auto simp: string_find_def split: if_splits)
  with ne have "k < k' \<and> k' < length scope" by (cases sep) auto
  then show "((sep, scope, type', Some k', k + length sep, out1), (sep, scope, type', n, n_prev, out))
      \<in> measure (\<lambda>(sep, scope, type', n, n_prev, out).
                   case n of None \<Rightarrow> 0 | Some k \<Rightarrow> length scope - k)"
    using n by (auto intro: diff_less_mono2)
qed

declare equal_prefix.simps [simp del] close_loop.simps [simp del] open_loop.simps [simp del]

text \<open>The block under \<open>if (scope_prev.size())\<close>: find the segments shared with the
  previous scope, then close the others. It returns \<open>n_prev\<close>.\<close>

definition scope_close ::
  "string \<Rightarrow> string \<Rightarrow> string \<Rightarrow> nat \<Rightarrow> out_line list \<Rightarrow> (exn + nat) \<times> out_line list" where
  "scope_close sep scope scope_prev n_prev out =
     (if scope_prev = [] then (Inr n_prev, out)
      else
        (let n = (case string_find scope_prev sep 0 of None \<Rightarrow> length scope_prev | Some k \<Rightarrow> k)
         in case equal_prefix sep scope scope_prev n 0 of
              Inl e \<Rightarrow> (Inl e, out)
            | Inr n_prev' \<Rightarrow>
                (let out1 = (if n_prev' \<noteq> length scope_prev + length sep
                             then out @ [Print_upscope] else out)
                 in case close_loop sep scope_prev (string_find scope_prev sep n_prev') out1 of
                      (Inl e, out2) \<Rightarrow> (Inl e, out2)
                    | (Inr u, out2) \<Rightarrow> (Inr n_prev', out2))))"

text \<open>The part ``scope print open'' with the declarations of the scope's variables.\<close>

definition scope_open ::
  "string \<Rightarrow> VCDScope \<Rightarrow> nat \<Rightarrow> out_line list \<Rightarrow> (exn + nat) \<times> out_line list" where
  "scope_open sep s n_prev out =
     (case open_loop sep (s_name s) (s_type s) (string_find (s_name s) sep n_prev) n_prev out of
        (Inl e, out1) \<Rightarrow> (Inl e, out1)
      | (Inr n_prev', out1) \<Rightarrow>
          (case scope_declaration (s_name s) (s_type s) n_prev' None out1 of
             (Inl e, out2) \<Rightarrow> (Inl e, out2)
           | (Inr u, out2) \<Rightarrow> (Inr n_prev', out2 @ map Print_var (s_vars s))))"

text \<open>\<open>for (auto& s : _scopes)\<close>, carrying \<open>scope_prev\<close> and \<open>n_prev\<close> from one scope to the
  next. It returns the last \<open>scope_prev\<close>.\<close>

fun scopes_loop ::
  "string \<Rightarrow> VCDScope list \<Rightarrow> string \<Rightarrow> nat \<Rightarrow> out_line list \<Rightarrow> (exn + string) \<times> out_line list" where
  "scopes_loop sep [] scope_prev n_prev out = (Inr scope_prev, out)"
| "scopes_loop sep (s # ss) scope_prev n_prev out =
     (case scope_close sep (s_name s) scope_prev n_prev out of
        (Inl e, out1) \<Rightarrow> (Inl e, out1)
      | (Inr n_prev1, out1) \<Rightarrow>
          (case scope_open sep s n_prev1 out1 of
             (Inl e, out2) \<Rightarrow> (Inl e, out2)
           | (Inr n_prev2, out2) \<Rightarrow> scopes_loop sep ss (s_name s) n_prev2 out2))"

text \<open>``scope print close (rest)''.\<close>

definition close_rest :: "string \<Rightarrow> string \<Rightarrow> out_line list \<Rightarrow> (exn + unit) \<times> out_line list" where
  "close_rest sep scope_prev out =
     (if scope_prev = [] then (Inr (), out)
      else close_loop sep scope_prev (string_find scope_prev sep 0) (out @ [Print_upscope]))"

text \<open>\<open>_write_header\<close>. An exception leaves what was printed before it in the file and the
  header in place. Dereferencing a header that was reset is undefined.\<close>

definition write_header :: "VCDWriter \<Rightarrow> (exn + unit) \<times> VCDWriter" where
  "write_header w =
     (case header w of
        None \<Rightarrow> (Inl UndefinedBehaviour, w)
      | Some h \<Rightarrow>
          (case scopes_loop (scope_sep w) (scopes w) [] 0 (ofile w @ header_lines h) of
             (Inl e, out1) \<Rightarrow> (Inl e, w\<lparr>ofile := out1\<rparr>)
           | (Inr scope_prev, out1) \<Rightarrow>
               (case close_rest (scope_sep w) scope_prev out1 of
                  (Inl e, out2) \<Rightarrow> (Inl e, w\<lparr>ofile := out2\<rparr>)
                | (Inr u, out2) \<Rightarrow>
                    (Inr (), w\<lparr>ofile := out2 @ [Print_enddefinitions], header := None\<rparr>))))"

subsection \<open>Dumping the tracked values: \<open>_dump_values\<close>, \<open>_dump_off\<close>\<close>

definition dump_values :: "string \<Rightarrow> VCDWriter \<Rightarrow> VCDWriter" where
  "dump_values keyword w =
     (let w1 = print (Print_keyword keyword) w
      in if \<not> dumping w1 then w1
         else print Print_end
                (w1\<lparr>ofile := ofile w1 @ map (\<lambda>p. Print_value (snd p) (v_ident (fst p))) (vars_prevs w1)\<rparr>))"

text \<open>\<open>value[0]\<close> of an empty tracked value is the terminating NUL, which takes the
  last branch.\<close>

definition dump_off_line :: "VCDVariable \<times> string \<Rightarrow> out_line list" where
  "dump_off_line p =
     (case snd p of
        [] \<Rightarrow> [Print_x (v_ident (fst p))]
      | c # cs \<Rightarrow>
          if c = CHR ''r'' then []
          else if c = CHR ''b'' then [Print_bx (v_ident (fst p))]
          else [Print_x (v_ident (fst p))])"

definition dump_off :: "nat \<Rightarrow> VCDWriter \<Rightarrow> VCDWriter" where
  "dump_off timestamp' w =
     (let w1 = print Print_dumpoff (print (Print_time timestamp') w)
      in print Print_end (w1\<lparr>ofile := ofile w1 @ concat (map dump_off_line (vars_prevs w1))\<rparr>))"

subsection \<open>\<open>_finalize_registration\<close>\<close>

definition finalize_registration :: "VCDWriter \<Rightarrow> (exn + unit) \<times> VCDWriter" where
  "finalize_registration w0 =
     (let w = w0\<lparr>fin_calls := fin_calls w0 + 1\<rparr>
      in if \<not> registering w then (Inl AssertionFailed, w)
         else
           (case write_header w of
              (Inl e, w1) \<Rightarrow> (Inl e, w1)
            | (Inr u, w1) \<Rightarrow>
                (let w2 = (if vars_prevs w1 \<noteq> [] then
                             (let w3 = dump_values ''$dumpvars'' (print (Print_time (timestamp w1)) w1)
                              in if \<not> dumping w3 then dump_off (timestamp w3) w3 else w3)
                           else w1)
                 in (Inr (), w2\<lparr>registering := False\<rparr>))))"

subsection \<open>\<open>_change\<close> and \<open>change\<close>\<close>

text \<open>The block \<open>if (timestamp > _timestamp)\<close> of \<open>_change\<close>.\<close>

definition time_advance :: "nat \<Rightarrow> VCDWriter \<Rightarrow> (exn + unit) \<times> VCDWriter" where
  "time_advance timestamp' w =
     (if timestamp w < timestamp' then
        (case (if registering w then finalize_registration w else (Inr (), w)) of
           (Inl e, w1) \<Rightarrow> (Inl e, w1)
         | (Inr u, w1) \<Rightarrow>
             (Inr (), (if dumping w1 then print (Print_time timestamp') w1 else w1)
                        \<lparr>timestamp := timestamp'\<rparr>))
      else (Inr (), w))"

text \<open>The end of \<open>_change\<close>: ``dump it into file'' and \<open>return true\<close>.\<close>

definition dump_change :: "VCDVariable \<Rightarrow> string \<Rightarrow> VCDWriter \<Rightarrow> (exn + bool) \<times> VCDWriter" where
  "dump_change var change_value w =
     (Inr True,
      if dumping w \<and> \<not> registering w then print (Print_change change_value (v_ident var)) w
      else w)"

text \<open>The second half of \<open>_change\<close>, from \<open>VarValue change_value = var->change_record(value)\<close>
  on: encode, compare with the tracked value, update the tracker.\<close>

definition track_change ::
  "(string \<Rightarrow> exn + string) \<Rightarrow> VCDVariable \<Rightarrow> string \<Rightarrow> bool \<Rightarrow> VCDWriter
   \<Rightarrow> (exn + bool) \<times> VCDWriter" where
  "track_change stod_g16 v value reg' w =
     (case change_record stod_g16 v value of
        Inl e \<Rightarrow> (Inl e, w)
      | Inr change_value \<Rightarrow>
          (case vars_prevs_find (vars_prevs w) v of
             Some it \<Rightarrow>
               if snd it = change_value then (Inr False, w)
               else dump_change v change_value
                      (w\<lparr>vars_prevs := vars_prevs_assign (vars_prevs w) v change_value\<rparr>)
           | None \<Rightarrow>
               if \<not> reg' then (Inl (VCDTypeException NotRegistered), w)
               else dump_change v change_value
                      (w\<lparr>vars_prevs := vars_prevs w @ [(v, change_value)]\<rparr>)))"

text \<open>\<open>_change\<close>, written \<open>change'\<close> (and its parameter \<open>reg\<close> written \<open>reg'\<close>). The
  pointer \<open>var\<close> is \<open>None\<close> when null; the message of the first exception dereferences
  it before the null check.\<close>

definition change' ::
  "(string \<Rightarrow> exn + string) \<Rightarrow> VCDVariable option \<Rightarrow> nat \<Rightarrow> string \<Rightarrow> bool \<Rightarrow> VCDWriter
   \<Rightarrow> (exn + bool) \<times> VCDWriter" where
  "change' stod_g16 var timestamp' value reg' w =
     (if timestamp' < timestamp w then
        (case var of None \<Rightarrow> (Inl UndefinedBehaviour, w)
         | Some v \<Rightarrow> (Inl (VCDPhaseException OutOfOrder), w))
      else if closed w then (Inl (VCDPhaseException ChangeAfterClose), w)
      else
        (case var of
           None \<Rightarrow> (Inl (VCDTypeException InvalidVCDVariable), w)
         | Some v \<Rightarrow>
             (case time_advance timestamp' w of
                (Inl e, w1) \<Rightarrow> (Inl e, w1)
              | (Inr u, w1) \<Rightarrow> track_change stod_g16 v value reg' w1)))"

text \<open>\<open>VCDWriter::var\<close>: the lookup key is the pair of scope name and variable name.\<close>

definition search_key :: "string \<Rightarrow> string \<Rightarrow> VCDVariable" where
  "search_key scope name =
     \<lparr> v_ident = 0, v_type = wire, v_name = name, v_size = 0, v_scope = scope,
       v_class = VCDScalarVariable \<rparr>"

definition var :: "string \<Rightarrow> string \<Rightarrow> VCDWriter \<Rightarrow> exn + VCDVariable" where
  "var scope name w =
     (case vars_find (vars w) (search_key scope name) of
        None \<Rightarrow> Inl (VCDPhaseException VarDoesNotExist)
      | Some v \<Rightarrow> Inr v)"

definition change ::
  "(string \<Rightarrow> exn + string) \<Rightarrow> string \<Rightarrow> string \<Rightarrow> nat \<Rightarrow> string \<Rightarrow> VCDWriter
   \<Rightarrow> (exn + bool) \<times> VCDWriter" where
  "change stod_g16 scope name timestamp' value w =
     (case var scope name w of
        Inl e \<Rightarrow> (Inl e, w)
      | Inr v \<Rightarrow> change' stod_g16 (Some v) timestamp' value False w)"

subsection \<open>\<open>register_var\<close> and \<open>set_scope_type\<close>\<close>

text \<open>\<open>_scopes.insert\<close>: the set keeps one scope for each name, in the order of the names,
  and reports whether it inserted.\<close>

definition scopes_insert :: "VCDScope \<Rightarrow> VCDScope list \<Rightarrow> VCDScope list \<times> bool" where
  "scopes_insert s ss =
     (if scopes_find ss (s_name s) \<noteq> None then (ss, False)
      else (insort_key s_name s ss, True))"

text \<open>The lookup of the scope at the start of \<open>register_var\<close>, with the insertion when
  the scope is new. \<open>cur_scope\<close> is then the scope of that name.\<close>

definition find_or_insert_scope :: "string \<Rightarrow> VCDWriter \<Rightarrow> (exn + unit) \<times> VCDWriter" where
  "find_or_insert_scope scope w =
     (case scopes_find (scopes w) scope of
        Some s \<Rightarrow> (Inr (), w)
      | None \<Rightarrow>
          (case scopes_insert \<lparr> s_name = scope, s_type = scope_def_type w, s_vars = [] \<rparr> (scopes w) of
             (ss, inserted) \<Rightarrow>
               if \<not> inserted then (Inl (VCDPhaseException CannotInsertScope), w)
               else (Inr (), w\<lparr>scopes := ss\<rparr>)))"

text \<open>The lambda \<open>sz\<close> and the constructors of the variable classes.\<close>

definition sz :: "nat \<Rightarrow> nat \<Rightarrow> nat" where
  "sz size' def = (if size' \<noteq> 0 then size' else def)"

definition new_var ::
  "var_class \<Rightarrow> string \<Rightarrow> VariableType \<Rightarrow> nat \<Rightarrow> string \<Rightarrow> nat \<Rightarrow> VCDVariable" where
  "new_var cls name type' size' scope next_var_id' =
     \<lparr> v_ident = next_var_id', v_type = type', v_name = name, v_size = size', v_scope = scope,
       v_class = cls \<rparr>"

text \<open>The \<open>switch (type)\<close> of \<open>register_var\<close>: the new variable and the initial value to
  be recorded.\<close>

definition make_var ::
  "string \<Rightarrow> VariableType \<Rightarrow> nat \<Rightarrow> string \<Rightarrow> nat \<Rightarrow> string \<Rightarrow> exn + VCDVariable \<times> string" where
  "make_var name type' size' scope next_var_id' init =
     (let int_case =
            (if sz size' 64 = 1
             then Inr (new_var VCDScalarVariable name type' 1 scope next_var_id', init)
             else Inr (new_var VCDVectorVariable name type' (sz size' 64) scope next_var_id', init))
      in case type' of
           integer \<Rightarrow> int_case
         | realtime \<Rightarrow> int_case
         | real \<Rightarrow>
             Inr (new_var VCDRealVariable name type' (sz size' 64) scope next_var_id',
                  if init = [UNDEF] then ''0.0'' else init)
         | string \<Rightarrow> Inr (new_var VCDStringVariable name type' (sz size' 1) scope next_var_id', init)
         | event \<Rightarrow> Inr (new_var VCDScalarVariable name type' 1 scope next_var_id', init)
         | _ \<Rightarrow>
             if size' = 0 then Inl (VCDTypeException MustSupplySize)
             else Inr (new_var VCDVectorVariable name type' size' scope next_var_id',
                       if init = [UNDEF] then replicate size' UNDEF else init))"

text \<open>\<open>_vars.insert(pvar)\<close> keeps the element already stored under an equal key;
  \<open>(**cur_scope).vars.push_back(pvar)\<close> appends to the list of the current scope.\<close>

definition vars_insert :: "VCDVariable list \<Rightarrow> VCDVariable \<Rightarrow> VCDVariable list" where
  "vars_insert vs pvar = (if vars_find vs pvar \<noteq> None then vs else vs @ [pvar])"

definition scopes_push_var :: "VCDScope list \<Rightarrow> string \<Rightarrow> VCDVariable \<Rightarrow> VCDScope list" where
  "scopes_push_var ss cur_scope pvar =
     map (\<lambda>s. if s_name s = cur_scope then s\<lparr>s_vars := s_vars s @ [pvar]\<rparr> else s) ss"

definition register_var ::
  "(string \<Rightarrow> exn + string) \<Rightarrow> string \<Rightarrow> string \<Rightarrow> VariableType \<Rightarrow> nat \<Rightarrow> string \<Rightarrow> bool
   \<Rightarrow> VCDWriter \<Rightarrow> (exn + VCDVariable) \<times> VCDWriter" where
  "register_var stod_g16 scope name type' size' init duplicate_names_check w =
     (if closed w then (Inl (VCDPhaseException RegisterAfterClose), w)
      else if \<not> registering w then (Inl (VCDPhaseException RegisteringFinished), w)
      else if length scope = 0 \<or> length name = 0 then (Inl (VCDTypeException EmptyScopeOrName), w)
      else
        (case find_or_insert_scope scope w of
           (Inl e, w1) \<Rightarrow> (Inl e, w1)
         | (Inr u, w1) \<Rightarrow>
             (case make_var name type' size' scope (next_var_id w1) init of
                Inl e \<Rightarrow> (Inl e, w1)
              | Inr (pvar, init_value) \<Rightarrow>
                  (case (if type' \<noteq> event
                         then change' stod_g16 (Some pvar) (timestamp w1) init_value True w1
                         else (Inr False, w1)) of
                     (Inl e, w2) \<Rightarrow> (Inl e, w2)
                   | (Inr b, w2) \<Rightarrow>
                       if duplicate_names_check \<and> vars_find (vars w2) pvar \<noteq> None
                       then (Inl (VCDTypeException DuplicateVar), w2)
                       else (Inr pvar,
                             w2\<lparr>vars := vars_insert (vars w2) pvar,
                                scopes := scopes_push_var (scopes w2) scope pvar,
                                next_var_id := (next_var_id w2 + 1) mod 2 ^ 32\<rparr>)))))"

definition set_scope_type :: "string \<Rightarrow> ScopeType \<Rightarrow> VCDWriter \<Rightarrow> (exn + unit) \<times> VCDWriter" where
  "set_scope_type scope scope_type w =
     (case scopes_find (scopes w) scope of
        None \<Rightarrow> (Inl (VCDPhaseException ScopeDoesNotExist), w)
      | Some s \<Rightarrow>
          (Inr (), w\<lparr>scopes := map (\<lambda>s. if s_name s = scope then s\<lparr>s_type := scope_type\<rparr> else s)
                                   (scopes w)\<rparr>))"

subsection \<open>Sequences of calls\<close>

text \<open>A client's calls. A call that throws leaves the writer as the exception found it,
  and the client goes on with the next call.\<close>

datatype call =
    Register_var string string VariableType nat string bool
  | Change string string nat string
  | Set_scope_type string ScopeType

fun exec :: "(string \<Rightarrow> exn + string) \<Rightarrow> call \<Rightarrow> VCDWriter \<Rightarrow> VCDWriter" where
  "exec stod_g16 (Register_var scope name type' size' init dup) w =
     snd (register_var stod_g16 scope name type' size' init dup w)"
| "exec stod_g16 (Change scope name timestamp' value) w =
     snd (change stod_g16 scope name timestamp' value w)"
| "exec stod_g16 (Set_scope_type scope scope_type) w = snd (set_scope_type scope scope_type w)"

fun run :: "(string \<Rightarrow> exn + string) \<Rightarrow> call list \<Rightarrow> VCDWriter \<Rightarrow> VCDWriter" where
  "run stod_g16 [] w = w"
| "run stod_g16 (c # cs) w = run stod_g16 cs (exec stod_g16 c w)"

subsection \<open>Predicates used in the statements\<close>

text \<open>The four state characters, and strings with no NUL byte.\<close>

definition is_state :: "char \<Rightarrow> bool" where
  "is_state c = (c = ONE \<or> c = ZERO \<or> c = UNDEF \<or> c = HIGHV)"

definition nul_free :: "string \<Rightarrow> bool" where
  "nul_free s = (CHR 0x00 \<notin> set s)"

text \<open>The lines of the file that are value-change records, and the lines of the declaration
  block that \<open>_write_header\<close> prints for the scopes.\<close>

definition is_change :: "out_line \<Rightarrow> bool" where
  "is_change l = (case l of Print_change v i \<Rightarrow> True | _ \<Rightarrow> False)"

definition is_decl_line :: "out_line \<Rightarrow> bool" where
  "is_decl_line l =
     (case l of Print_scope t n \<Rightarrow> True | Print_var v \<Rightarrow> True | Print_upscope \<Rightarrow> True
      | _ \<Rightarrow> False)"

definition no_change :: "out_line list \<Rightarrow> bool" where
  "no_change d = list_all (\<lambda>l. \<not> is_change l) d"

text \<open>What the declaration block needs of the scopes: the separator of the constructor,
  the order of the set, and names that are C strings.\<close>

definition wf_scopes :: "VCDWriter \<Rightarrow> bool" where
  "wf_scopes w =
     (scope_sep w = ''.'' \<and> sorted_wrt (<) (map s_name (scopes w)) \<and>
      list_all (\<lambda>s. s_name s \<noteq> [] \<and> nul_free (s_name s)) (scopes w))"

text \<open>Calls whose scope name is a C string.\<close>

definition nul_free_call :: "call \<Rightarrow> bool" where
  "nul_free_call c =
     (case c of Register_var scope name type' size' init dup \<Rightarrow> nul_free scope | _ \<Rightarrow> True)"

text \<open>The end-of-definitions line is in the file and no value-change record stands
  before it.\<close>

definition definitions_first :: "out_line list \<Rightarrow> bool" where
  "definitions_first out =
     (Print_enddefinitions \<in> set out \<and>
      no_change (takeWhile (\<lambda>l. l \<noteq> Print_enddefinitions) out))"

text \<open>Two invariants of the writer. The first holds after any calls: the separator is
  the constructor's, the scopes are in the order of their names, and the header is in
  place while the registration is open. The second needs scope names without NUL: the
  registration is open with nothing written, no call of \<open>_finalize_registration\<close> and
  the initial timestamp, or it is finished after one such call, with a later timestamp
  and the definitions written first.\<close>

definition basic_inv :: "VCDHeader \<Rightarrow> VCDWriter \<Rightarrow> bool" where
  "basic_inv hdr w =
     (scope_sep w = ''.'' \<and> sorted_wrt (<) (map s_name (scopes w)) \<and>
      (registering w \<longrightarrow> header w = Some hdr))"

definition writer_inv :: "nat \<Rightarrow> VCDWriter \<Rightarrow> bool" where
  "writer_inv ts0 w =
     (wf_scopes w \<and> \<not> closed w \<and>
      (if registering w
       then header w \<noteq> None \<and> ofile w = [] \<and> fin_calls w = 0 \<and> timestamp w = ts0
       else fin_calls w = 1 \<and> ts0 < timestamp w \<and> definitions_first (ofile w)))"

text \<open>What holds of the file after any calls, whatever the scope names: the writer is
  dumping and not closed, the file holds no value-change record while the registration is
  open, and once it is finished the definitions stand first.\<close>

definition file_inv :: "VCDWriter \<Rightarrow> bool" where
  "file_inv w =
     (dumping w \<and> \<not> closed w \<and>
      (if registering w then no_change (ofile w) else definitions_first (ofile w)))"

text \<open>A call that registers the given scope and name with a type other than \<open>event\<close>, and
  the property that every key of the tracker comes from such a call.\<close>

definition registers_value :: "string \<Rightarrow> string \<Rightarrow> call \<Rightarrow> bool" where
  "registers_value scope name c =
     (case c of
        Register_var s n type' size' init dup \<Rightarrow> s = scope \<and> n = name \<and> type' \<noteq> event
      | _ \<Rightarrow> False)"

definition tracker_keys :: "call list \<Rightarrow> VCDWriter \<Rightarrow> bool" where
  "tracker_keys calls w =
     list_all (\<lambda>p. list_ex (registers_value (v_scope (fst p)) (v_name (fst p))) calls)
       (vars_prevs w)"

subsection \<open>Concrete inputs\<close>

text \<open>An empty header, a \<open>stod\<close> that accepts nothing (no real variable occurs in the
  examples), a short trace, and two scope names with a NUL byte: \<open>a\<close>, NUL, \<open>c.d\<close> and
  \<open>a\<close>, NUL, \<open>d\<close>.\<close>

abbreviation hdr0 :: VCDHeader where
  "hdr0 \<equiv> \<lparr>h_timescale = '''', h_date = '''', h_comment = '''', h_version = ''''\<rparr>"

abbreviation no_stod :: "string \<Rightarrow> exn + string" where
  "no_stod \<equiv> (\<lambda>s. Inl StdInvalidArgument)"

abbreviation calls2 :: "call list" where
  "calls2 \<equiv> [Register_var ''top'' ''clk'' wire 1 ''0'' True,
             Change ''top'' ''clk'' 5 ''1'', Change ''top'' ''clk'' 7 ''0'']"

abbreviation nul_scope1 :: string where
  "nul_scope1 \<equiv> [CHR ''a'', CHR 0x00, CHR ''c'', CHR ''.'', CHR ''d'']"

abbreviation nul_scope2 :: string where
  "nul_scope2 \<equiv> [CHR ''a'', CHR 0x00, CHR ''d'']"

abbreviation nul_calls :: "call list" where
  "nul_calls \<equiv> [Register_var nul_scope1 ''v'' wire 1 ''0'' True,
                Register_var nul_scope2 ''v'' wire 1 ''0'' True]"

abbreviation calls1 :: "call list" where
  "calls1 \<equiv> [Register_var ''a.c'' ''v'' wire 1 ''0'' True,
             Register_var ''a'' ''u'' reg 2 ''x'' True,
             Register_var ''a.b'' ''t'' wire 4 ''x'' True,
             Register_var ''a'' ''w'' integer 1 ''1'' True]"

abbreviation calls3 :: "call list" where
  "calls3 \<equiv> [Register_var ''top'' ''e'' event 0 ''x'' True,
             Register_var ''top'' ''clk'' wire 1 ''0'' True,
             Change ''top'' ''clk'' 5 ''1'']"

section \<open>The encoders\<close>

lemma replicate_numeral: "replicate (numeral n) x = x # replicate (pred_numeral n) x"
  by (simp add: numeral_eq_Suc)

lemmas chars = ONE_def ZERO_def UNDEF_def HIGHV_def tolower_def

lemmas encoders =
  change_record_def scalar_change_record_def string_change_record_def real_change_record_def
  vector_change_record_def align_def resize_def validate_loop.simps zero_loop.simps
  replicate_numeral c_str_def

lemma tolower_states:
  "tolower ONE = ONE" "tolower ZERO = ZERO" "tolower UNDEF = UNDEF" "tolower HIGHV = HIGHV"
  by (simp_all add: chars)

lemma tolower_state: "is_state c \<Longrightarrow> tolower c = c"
  unfolding is_state_def using tolower_states by auto

text \<open>The checking loop leaves a buffer of state characters as it is.\<close>

lemma validate_loop_states:
  "bound \<le> length val \<Longrightarrow> (\<forall>j. i \<le> j \<and> j < bound \<longrightarrow> is_state (val ! j))
   \<Longrightarrow> validate_loop val i bound = Inr val"
proof (induction val i bound rule: validate_loop.induct)
  case (1 val i bound)
  show ?case
  proof (cases "i < bound")
    case False
    then show ?thesis by (subst validate_loop.simps) simp
  next
    case True
    with "1.prems" have st: "is_state (val ! i)" and len: "i < length val" by auto
    have upd: "val[i := tolower (val ! i)] = val"
      using st by (simp add: tolower_state)
    have "validate_loop val (i + 1) bound = Inr val"
      using "1.IH"[of "val[i := tolower (val ! i)]"] True len st "1.prems" upd
      by (simp add: is_state_def)
    then show ?thesis
      using True len st upd by (subst validate_loop.simps) (simp add: is_state_def)
  qed
qed

lemma shift_loop_nth:
  "k + n < length val \<Longrightarrow> 0 < k \<Longrightarrow>
   \<exists>val'. shift_loop val k n = Inr val' \<and> length val' = length val \<and>
     (\<forall>p < length val. val' ! p = (if k < p \<and> p \<le> k + n then val ! (p - k) else val ! p))"
proof (induction n arbitrary: val)
  case 0
  then show ?case by auto
next
  case (Suc j)
  define v where "v = val[k + Suc j := val ! Suc j]"
  from Suc.prems have "k + j < length v" by (simp add: v_def)
  from Suc.IH[OF this \<open>0 < k\<close>] obtain val' where
    r: "shift_loop v k j = Inr val'" and l: "length val' = length v"
    and n: "\<And>p. p < length v \<Longrightarrow> val' ! p = (if k < p \<and> p \<le> k + j then v ! (p - k) else v ! p)"
    by blast
  have lv: "length v = length val" by (simp add: v_def)
  have "val' ! p = (if k < p \<and> p \<le> k + Suc j then val ! (p - k) else val ! p)"
    if p: "p < length val" for p
  proof -
    consider "k < p \<and> p \<le> k + j" | "p = k + Suc j" | "p \<le> k \<or> k + Suc j < p" by linarith
    then show ?thesis
    proof cases
      case 1
      then have "val' ! p = v ! (p - k)" using n[of p] p lv by simp
      also have "\<dots> = val ! (p - k)"
      proof -
        have "p - k \<noteq> k + Suc j" using 1 by linarith
        then show ?thesis by (simp add: v_def)
      qed
      finally show ?thesis using 1 by simp
    next
      case 2
      then have "val' ! p = v ! p" using n[of p] p lv by simp
      also have "\<dots> = val ! Suc j" using 2 p by (simp add: v_def)
      finally show ?thesis using 2 by simp
    next
      case 3
      then have "val' ! p = v ! p" using n[of p] p lv by auto
      also have "\<dots> = val ! p" using 3 by (auto simp: v_def)
      finally show ?thesis using 3 by auto
    qed
  qed
  moreover have "shift_loop val k (Suc j) = Inr val'"
    using r Suc.prems by (simp add: v_def)
  ultimately show ?case using l lv by auto
qed

lemma zero_loop_nth:
  "k < length val \<Longrightarrow>
   \<exists>val'. zero_loop val i k = Inr val' \<and> length val' = length val \<and>
     (\<forall>p < length val. val' ! p = (if i \<le> p \<and> p \<le> k then ZERO else val ! p))"
proof (induction val i k rule: zero_loop.induct)
  case (1 val i k)
  show ?case
  proof (cases "i \<le> k")
    case False
    then show ?thesis by (subst zero_loop.simps) auto
  next
    case True
    with "1.prems" have len: "i < length val" by simp
    from "1.IH"[OF True len] "1.prems" obtain val' where
      r: "zero_loop (val[i := ZERO]) (i + 1) k = Inr val'" and l: "length val' = length val"
      and n: "\<forall>p < length val. val' ! p = (if i + 1 \<le> p \<and> p \<le> k then ZERO else val[i := ZERO] ! p)"
      by auto
    have "\<forall>p < length val. val' ! p = (if i \<le> p \<and> p \<le> k then ZERO else val ! p)"
      using n True by (auto simp: nth_list_update)
    with r l True len show ?thesis by (subst zero_loop.simps) simp
  qed
qed

lemma align_padded:
  assumes n: "value \<noteq> []" and lt: "length value < size'" and sz: "size' + 2 < 2 ^ 32"
  shows "align (''b'' @ value @ '' '') size' (length value)
         = Inr (''b'' @ replicate (size' - length value) ZERO @ value @ '' '')"
proof -
  let ?n = "length value"
  let ?k = "size' - ?n"
  define v1 where "v1 = resize (''b'' @ value @ '' '') ((size' + 2) mod 2 ^ 32)"
  have m2: "(size' + 2) mod 2 ^ 32 = size' + 2" and m1: "(size' + 1) mod 2 ^ 32 = size' + 1"
    using sz by simp_all
  have v1: "v1 = ''b'' @ value @ '' '' @ replicate ?k (CHR 0x00)"
    unfolding v1_def resize_def m2 using lt by simp
  have l1: "length v1 = size' + 2" unfolding v1 using lt by simp
  have kpos: "0 < ?k" using lt by simp
  have "?k + ?n < length v1" using l1 lt by simp
  from shift_loop_nth[OF this kpos] obtain v2 where
    s: "shift_loop v1 ?k ?n = Inr v2" and l2: "length v2 = size' + 2"
    and n2: "\<forall>p < size' + 2. v2 ! p = (if ?k < p \<and> p \<le> ?k + ?n then v1 ! (p - ?k) else v1 ! p)"
    unfolding l1 by blast
  have "?k < length v2" using l2 by simp
  from zero_loop_nth[OF this, of 1] obtain v3 where
    z: "zero_loop v2 1 ?k = Inr v3" and l3: "length v3 = size' + 2"
    and n3: "\<forall>p < size' + 2. v3 ! p = (if 1 \<le> p \<and> p \<le> ?k then ZERO else v2 ! p)"
    unfolding l2 by blast
  have res: "align (''b'' @ value @ '' '') size' ?n = Inr (v3[size' + 1 := CHR '' ''])"
    unfolding align_def Let_def m1 using s z l3 by (simp add: v1_def)
  have "v3[size' + 1 := CHR '' ''] = ''b'' @ replicate ?k ZERO @ value @ '' ''"
  proof (rule nth_equalityI)
    show "length (v3[size' + 1 := CHR '' '']) = length (''b'' @ replicate ?k ZERO @ value @ '' '')"
      using l3 lt by simp
  next
    fix p assume "p < length (v3[size' + 1 := CHR '' ''])"
    then have p: "p < size' + 2" using l3 by simp
    consider "p = 0" | "1 \<le> p \<and> p \<le> ?k" | "?k < p \<and> p \<le> size'" | "p = size' + 1"
      using p by linarith
    then show "v3[size' + 1 := CHR '' ''] ! p = (''b'' @ replicate ?k ZERO @ value @ '' '') ! p"
    proof cases
      case 1
      then show ?thesis using n3 n2 p l3 kpos by (simp add: v1)
    next
      case 2
      then have "p \<noteq> size' + 1" "p - 1 < ?k" "p \<noteq> 0" using lt by linarith+
      then have "v3[size' + 1 := CHR '' ''] ! p = ZERO"
        "(''b'' @ replicate ?k ZERO @ value @ '' '') ! p = ZERO"
        using n3 p 2 by (simp_all add: nth_append nth_Cons')
      then show ?thesis by simp
    next
      case 3
      then have ne: "p \<noteq> size' + 1" "p \<noteq> 0" "\<not> p - 1 < ?k" "p - 1 - ?k < ?n"
        "p - ?k \<noteq> 0" "p - ?k - 1 < ?n" "p - ?k - 1 = p - 1 - ?k"
        using lt by linarith+
      have "v3 ! p = v2 ! p" using n3 p 3 by simp
      also have "\<dots> = v1 ! (p - ?k)" using n2 p 3 lt by simp
      also have "\<dots> = value ! (p - ?k - 1)"
        unfolding v1 using ne by (simp add: nth_append nth_Cons')
      finally have a: "v3[size' + 1 := CHR '' ''] ! p = value ! (p - ?k - 1)"
        using ne by simp
      have c: "(''b'' @ replicate ?k ZERO @ value @ '' '') ! p = value ! (p - ?k - 1)"
        using ne by (simp add: nth_append nth_Cons')
      show ?thesis using a c by simp
    next
      case 4
      have "(''b'' @ replicate ?k ZERO @ value) @ '' '' = ''b'' @ replicate ?k ZERO @ value @ '' ''"
        by simp
      moreover have "length (''b'' @ replicate ?k ZERO @ value) = p" using 4 lt by simp
      ultimately have "(''b'' @ replicate ?k ZERO @ value @ '' '') ! p = CHR '' ''"
        by (metis nth_append_length)
      then show ?thesis using 4 l3 by simp
    qed
  qed
  with res show ?thesis by simp
qed

lemma vector_padded:
  assumes "value \<noteq> []" "length value < size'" "size' + 2 < 2 ^ 32"
    and "list_all is_state value"
  shows "vector_change_record size' value
         = Inr (''b'' @ replicate (size' - length value) ZERO @ value @ '' '')"
proof -
  let ?n = "length value"
  have b: "(?n + 2 ^ 64 - 1) mod 2 ^ 64 = ?n - 1"
  proof -
    have "?n < 2 ^ 32" using assms by simp
    also have "(2::nat) ^ 32 < 2 ^ 64" by simp
    finally have lt: "?n < 2 ^ 64" .
    have e: "?n + 2 ^ 64 - 1 = (?n - 1) + 2 ^ 64" using assms(1) by (cases "value") simp_all
    have "(?n - 1 + 2 ^ 64) mod 2 ^ 64 = (?n - 1) mod 2 ^ 64" by (rule mod_add_self2)
    also have "\<dots> = ?n - 1" using lt by (intro mod_less) simp
    finally show ?thesis by (simp only: e)
  qed
  have "\<forall>j. 1 \<le> j \<and> j < ?n - 1 \<longrightarrow> is_state ((''b'' @ value @ '' '') ! j)"
    using assms(4) by (auto simp: nth_append nth_Cons' list_all_length)
  then have v: "validate_loop (''b'' @ value @ '' '') 1 (?n - 1) = Inr (''b'' @ value @ '' '')"
    by (intro validate_loop_states) auto
  show ?thesis
    unfolding vector_change_record_def Let_def b
    using assms(1,2) v align_padded[OF assms(1-3)] by simp
qed

section \<open>String searches and comparisons\<close>

lemma c_str_nul_free: "nul_free s \<Longrightarrow> c_str s = s"
  by (auto simp: nul_free_def c_str_def takeWhile_eq_all_conv)

lemma find_at_bounds:
  "find_at cs sep i = Some j \<Longrightarrow> i \<le> j \<and> j + length sep \<le> i + length cs"
proof (induction cs arbitrary: i)
  case Nil
  then show ?case by (simp split: if_splits)
next
  case (Cons c cs)
  show ?case
  proof (cases "take (length sep) (c # cs) = sep")
    case True
    then have "length sep \<le> length (c # cs)" by (metis length_take min.cobounded1)
    with True Cons.prems show ?thesis by simp
  next
    case False
    with Cons.prems have "find_at cs sep (Suc i) = Some j" by simp
    from Cons.IH[OF this] show ?thesis by simp
  qed
qed

lemma string_find_bounds:
  "string_find s sep pos = Some k \<Longrightarrow> pos \<le> k \<and> k + length sep \<le> length s"
  using find_at_bounds[of "drop pos s" sep pos k]
  by (auto simp: string_find_def split: if_splits)

lemma take_le_self: "take n (ys :: string) \<le> ys"
proof (induction ys arbitrary: n)
  case Nil
  then show ?case by simp
next
  case (Cons y ys)
  then show ?case by (cases n) simp_all
qed

text \<open>A scope that sorts after \<open>prev\<close> and agrees with it on \<open>n\<close> characters is longer
  than \<open>n\<close>: otherwise it would be a prefix of \<open>prev\<close> and sort before it.\<close>

lemma less_not_prefix:
  assumes "(prev :: string) < scope" and "take n scope = take n prev" and "n \<le> length prev"
  shows "n < length scope"
proof (rule ccontr)
  assume "\<not> n < length scope"
  then have "take n scope = scope" by simp
  with assms(2) have "scope = take n prev" by simp
  then have "scope \<le> prev" using take_le_self[of n prev] by simp
  with assms(1) show False by simp
qed

section \<open>The loops of \<open>_write_header\<close>\<close>

lemma equal_prefix_bound:
  "length sep = 1 \<Longrightarrow> nul_free scope \<Longrightarrow> nul_free prev \<Longrightarrow> prev < scope \<Longrightarrow>
   n \<le> length prev \<Longrightarrow> n_prev \<le> length scope \<Longrightarrow>
   \<exists>m. equal_prefix sep scope prev n n_prev = Inr m \<and> m \<le> length scope"
proof (induction sep scope prev n n_prev rule: equal_prefix.induct)
  case (1 sep scope prev n n_prev)
  have ne: "sep \<noteq> []" using "1.prems"(1) by auto
  show ?case
  proof (cases "strncmp_eq scope prev n")
    case False
    then show ?thesis using "1.prems" by (subst equal_prefix.simps) simp
  next
    case True
    then have "take n scope = take n prev"
      using "1.prems" by (simp add: strncmp_eq_def c_str_nul_free)
    then have lt: "n < length scope"
      using less_not_prefix "1.prems" by blast
    show ?thesis
    proof (cases "string_find prev sep (n + length sep)")
      case None
      then show ?thesis using True lt "1.prems"(1) by (subst equal_prefix.simps) simp
    next
      case (Some n')
      then have "n' \<le> length prev" using string_find_bounds by fastforce
      from "1.IH"[OF True Some ne "1.prems"(1-4) this] lt "1.prems"(1)
      obtain m where "equal_prefix sep scope prev n' (n + length sep) = Inr m" "m \<le> length scope"
        by auto
      then show ?thesis using True Some ne by (subst equal_prefix.simps) simp
    qed
  qed
qed

text \<open>What the loops append to the file, whether they return or throw.\<close>

lemma close_loop_appends:
  "\<exists>d. snd (close_loop sep prev n out) = out @ d \<and> list_all is_decl_line d"
proof (induction sep prev n out rule: close_loop.induct)
  case (1 sep prev n out)
  show ?case
  proof (cases n)
    case None
    then show ?thesis by (subst close_loop.simps) simp
  next
    case (Some k)
    show ?thesis
    proof (cases "string_find prev sep (k + length sep)")
      case None
      then show ?thesis using Some
        by (subst close_loop.simps) (simp add: is_decl_line_def)
    next
      case (Some k')
      show ?thesis
      proof (cases "sep = []")
        case True
        then show ?thesis using \<open>n = Some k\<close> Some
          by (subst close_loop.simps) (simp add: is_decl_line_def)
      next
        case False
        from "1.IH"[OF \<open>n = Some k\<close> Some False] obtain d where
          "snd (close_loop sep prev (Some k') (out @ [Print_upscope])) = (out @ [Print_upscope]) @ d"
          "list_all is_decl_line d" by blast
        then show ?thesis using \<open>n = Some k\<close> Some False
          by (subst close_loop.simps)
             (auto simp: is_decl_line_def intro!: exI[of _ "Print_upscope # d"])
      qed
    qed
  qed
qed

lemma close_loop_returns: "sep \<noteq> [] \<Longrightarrow> fst (close_loop sep prev n out) = Inr ()"
proof (induction sep prev n out rule: close_loop.induct)
  case (1 sep prev n out)
  show ?case
  proof (cases n)
    case None
    then show ?thesis by (subst close_loop.simps) simp
  next
    case (Some k)
    show ?thesis
    proof (cases "string_find prev sep (k + length sep)")
      case None
      then show ?thesis using Some by (subst close_loop.simps) simp
    next
      case (Some k')
      from "1.IH"[OF \<open>n = Some k\<close> Some "1.prems" "1.prems"]
      show ?thesis using \<open>n = Some k\<close> Some "1.prems" by (subst close_loop.simps) simp
    qed
  qed
qed

lemma scope_declaration_appends:
  "\<exists>d. snd (scope_declaration scope t b e out) = out @ d \<and> list_all is_decl_line d"
  by (auto simp: scope_declaration_def is_decl_line_def split: sum.splits)

lemma scope_declaration_returns:
  "b \<le> length scope \<Longrightarrow> fst (scope_declaration scope t b e out) = Inr ()"
  by (auto simp: scope_declaration_def substr_def split: sum.splits)

lemma open_loop_appends:
  "\<exists>d. snd (open_loop sep scope t n n_prev out) = out @ d \<and> list_all is_decl_line d"
proof (induction sep scope t n n_prev out rule: open_loop.induct)
  case (1 sep scope t n n_prev out)
  show ?case
  proof (cases n)
    case None
    then show ?thesis by (subst open_loop.simps) simp
  next
    case (Some k)
    obtain r out1 where decl: "scope_declaration scope t n_prev (Some k) out = (r, out1)"
      by (cases "scope_declaration scope t n_prev (Some k) out")
    with scope_declaration_appends[of scope t n_prev "Some k" out] obtain d1 where
      d1: "out1 = out @ d1" "list_all is_decl_line d1" by auto
    show ?thesis
    proof (cases r)
      case (Inl e)
      then show ?thesis using Some decl d1 by (subst open_loop.simps) simp
    next
      case (Inr u)
      show ?thesis
      proof (cases "string_find scope sep (k + length sep)")
        case None
        then show ?thesis using \<open>n = Some k\<close> decl d1 Inr by (subst open_loop.simps) simp
      next
        case (Some k')
        show ?thesis
        proof (cases "sep = []")
          case True
          then show ?thesis using \<open>n = Some k\<close> Some decl d1 Inr by (subst open_loop.simps) simp
        next
          case False
          from "1.IH"[OF \<open>n = Some k\<close> decl[symmetric] Inr Some False] obtain d where
            "snd (open_loop sep scope t (Some k') (k + length sep) out1) = out1 @ d"
            "list_all is_decl_line d" by blast
          then show ?thesis using \<open>n = Some k\<close> Some decl d1 Inr False
            by (subst open_loop.simps) (auto intro!: exI[of _ "d1 @ d"])
        qed
      qed
    qed
  qed
qed

lemma open_loop_returns:
  "sep \<noteq> [] \<Longrightarrow> n_prev \<le> length scope \<Longrightarrow>
   (\<forall>k. n = Some k \<longrightarrow> n_prev \<le> k \<and> k + length sep \<le> length scope) \<Longrightarrow>
   \<exists>m. fst (open_loop sep scope t n n_prev out) = Inr m \<and> m \<le> length scope"
proof (induction sep scope t n n_prev out rule: open_loop.induct)
  case (1 sep scope t n n_prev out)
  show ?case
  proof (cases n)
    case None
    then show ?thesis using "1.prems" by (subst open_loop.simps) simp
  next
    case (Some k)
    with "1.prems" have k: "n_prev \<le> k" "k + length sep \<le> length scope" by auto
    obtain r out1 where decl: "scope_declaration scope t n_prev (Some k) out = (r, out1)"
      by (cases "scope_declaration scope t n_prev (Some k) out")
    with scope_declaration_returns[OF "1.prems"(2), of t "Some k" out] have r: "r = Inr ()" by simp
    show ?thesis
    proof (cases "string_find scope sep (k + length sep)")
      case None
      then show ?thesis using Some decl r k
        by (subst open_loop.simps) simp
    next
      case (Some k')
      then have b: "k + length sep \<le> k'" "k' + length sep \<le> length scope"
        using string_find_bounds by fastforce+
      from "1.IH"[OF \<open>n = Some k\<close> decl[symmetric] r Some "1.prems"(1) "1.prems"(1) k(2)] b
      obtain m where "fst (open_loop sep scope t (Some k') (k + length sep) out1) = Inr m"
        "m \<le> length scope"
        by auto
      then show ?thesis using \<open>n = Some k\<close> Some decl r "1.prems"(1)
        by (subst open_loop.simps) simp
    qed
  qed
qed

lemma decl_line_not_change: "is_decl_line l \<Longrightarrow> \<not> is_change l"
  by (cases l) (simp_all add: is_decl_line_def is_change_def)

lemma decl_lines_not_change: "list_all is_decl_line d \<Longrightarrow> list_all (\<lambda>l. \<not> is_change l) d"
  by (induction d) (simp_all add: decl_line_not_change)

lemma scope_close_appends:
  "\<exists>d. snd (scope_close sep scope prev n_prev out) = out @ d \<and> list_all is_decl_line d"
proof (cases "prev = []")
  case True
  then show ?thesis by (simp add: scope_close_def)
next
  case False
  define n where "n = (case string_find prev sep 0 of None \<Rightarrow> length prev | Some k \<Rightarrow> k)"
  show ?thesis
  proof (cases "equal_prefix sep scope prev n 0")
    case (Inl e)
    then show ?thesis using False by (simp add: scope_close_def n_def)
  next
    case (Inr m)
    define out1 where "out1 = (if m \<noteq> length prev + length sep then out @ [Print_upscope] else out)"
    obtain r2 out2 where cl: "close_loop sep prev (string_find prev sep m) out1 = (r2, out2)"
      by (cases "close_loop sep prev (string_find prev sep m) out1")
    with close_loop_appends[of sep prev "string_find prev sep m" out1] obtain d where
      d: "out2 = out1 @ d" "list_all is_decl_line d"
      by auto
    have "\<exists>d1. out1 = out @ d1 \<and> list_all is_decl_line d1"
      by (simp add: out1_def is_decl_line_def)
    then obtain d1 where d1: "out1 = out @ d1" "list_all is_decl_line d1" by blast
    have "snd (scope_close sep scope prev n_prev out) = out2"
      using False Inr cl
      by (cases r2) (simp_all add: scope_close_def n_def[symmetric] out1_def[symmetric] Let_def)
    then show ?thesis using d d1 by (intro exI[of _ "d1 @ d"]) simp
  qed
qed

lemma scope_close_returns:
  assumes "length sep = 1" "nul_free scope"
    and "prev \<noteq> [] \<longrightarrow> nul_free prev \<and> prev < scope"
    and "prev = [] \<longrightarrow> n_prev \<le> length scope"
  shows "\<exists>m. fst (scope_close sep scope prev n_prev out) = Inr m \<and> m \<le> length scope"
proof (cases "prev = []")
  case True
  then show ?thesis using assms by (simp add: scope_close_def)
next
  case False
  define n where "n = (case string_find prev sep 0 of None \<Rightarrow> length prev | Some k \<Rightarrow> k)"
  have "n \<le> length prev"
    using string_find_bounds[of prev sep 0] by (auto simp: n_def split: option.splits)
  from equal_prefix_bound[OF assms(1,2) _ _ this, of 0] assms(3) False
  obtain m where m: "equal_prefix sep scope prev n 0 = Inr m" "m \<le> length scope" by auto
  have ne: "sep \<noteq> []" using assms(1) by auto
  show ?thesis
    using False m close_loop_returns[OF ne]
    by (simp add: scope_close_def n_def[symmetric] Let_def split: prod.splits sum.splits)
       (metis fst_conv sum.distinct(1) old.unit.exhaust sum.inject(2))
qed

lemma scope_open_appends:
  "\<exists>d. snd (scope_open sep s n_prev out) = out @ d \<and> list_all is_decl_line d"
proof -
  obtain r out1 where ol:
    "open_loop sep (s_name s) (s_type s) (string_find (s_name s) sep n_prev) n_prev out = (r, out1)"
    by (cases "open_loop sep (s_name s) (s_type s) (string_find (s_name s) sep n_prev) n_prev out")
  with open_loop_appends[of sep "s_name s" "s_type s" "string_find (s_name s) sep n_prev" n_prev out]
  obtain d1 where d1: "out1 = out @ d1" "list_all is_decl_line d1" by auto
  show ?thesis
  proof (cases r)
    case (Inl e)
    then show ?thesis using ol d1 by (simp add: scope_open_def)
  next
    case (Inr m)
    obtain r2 out2 where sd: "scope_declaration (s_name s) (s_type s) m None out1 = (r2, out2)"
      by (cases "scope_declaration (s_name s) (s_type s) m None out1")
    with scope_declaration_appends[of "s_name s" "s_type s" m None out1]
    obtain d2 where d2: "out2 = out1 @ d2" "list_all is_decl_line d2" by auto
    have v: "list_all is_decl_line (map Print_var (s_vars s))"
      by (simp add: list_all_iff is_decl_line_def)
    show ?thesis
    proof (cases r2)
      case (Inl e)
      then show ?thesis using ol Inr sd d1 d2
        by (auto simp: scope_open_def intro!: exI[of _ "d1 @ d2"])
    next
      case (Inr u)
      then show ?thesis using ol \<open>r = Inr m\<close> sd d1 d2 v
        by (auto simp: scope_open_def intro!: exI[of _ "d1 @ d2 @ map Print_var (s_vars s)"])
    qed
  qed
qed

lemma scope_open_returns:
  assumes "sep \<noteq> []" "n_prev \<le> length (s_name s)"
  shows "\<exists>m. fst (scope_open sep s n_prev out) = Inr m"
proof -
  have "\<forall>k. string_find (s_name s) sep n_prev = Some k \<longrightarrow>
          n_prev \<le> k \<and> k + length sep \<le> length (s_name s)"
    using string_find_bounds by blast
  from open_loop_returns[OF assms this, of "s_type s" out] obtain m where
    m: "fst (open_loop sep (s_name s) (s_type s) (string_find (s_name s) sep n_prev) n_prev out) = Inr m"
    "m \<le> length (s_name s)" by blast
  obtain out1 where ol:
    "open_loop sep (s_name s) (s_type s) (string_find (s_name s) sep n_prev) n_prev out = (Inr m, out1)"
    using m(1)
    by (cases "open_loop sep (s_name s) (s_type s) (string_find (s_name s) sep n_prev) n_prev out")
       simp
  obtain out2 where sd: "scope_declaration (s_name s) (s_type s) m None out1 = (Inr (), out2)"
    using scope_declaration_returns[OF m(2), of "s_type s" None out1]
    by (cases "scope_declaration (s_name s) (s_type s) m None out1") simp
  show ?thesis using ol sd by (simp add: scope_open_def)
qed

lemma scopes_loop_appends:
  "\<exists>d. snd (scopes_loop sep ss prev n_prev out) = out @ d \<and> list_all is_decl_line d"
proof (induction ss arbitrary: prev n_prev out)
  case Nil
  then show ?case by simp
next
  case (Cons s ss)
  obtain r1 out1 where c: "scope_close sep (s_name s) prev n_prev out = (r1, out1)"
    by (cases "scope_close sep (s_name s) prev n_prev out")
  with scope_close_appends[of sep "s_name s" prev n_prev out]
  obtain d1 where d1: "out1 = out @ d1" "list_all is_decl_line d1" by auto
  show ?case
  proof (cases r1)
    case (Inl e)
    then show ?thesis using c d1 by simp
  next
    case (Inr m1)
    obtain r2 out2 where ob: "scope_open sep s m1 out1 = (r2, out2)"
      by (cases "scope_open sep s m1 out1")
    with scope_open_appends[of sep s m1 out1]
    obtain d2 where d2: "out2 = out1 @ d2" "list_all is_decl_line d2" by auto
    show ?thesis
    proof (cases r2)
      case (Inl e)
      then show ?thesis using c Inr ob d1 d2 by (auto intro!: exI[of _ "d1 @ d2"])
    next
      case (Inr m2)
      from Cons.IH[of "s_name s" m2 out2] obtain d3 where
        "snd (scopes_loop sep ss (s_name s) m2 out2) = out2 @ d3" "list_all is_decl_line d3"
        by blast
      then show ?thesis using c \<open>r1 = Inr m1\<close> ob Inr d1 d2
        by (auto intro!: exI[of _ "d1 @ d2 @ d3"])
    qed
  qed
qed

lemma scopes_loop_returns:
  assumes "length sep = 1"
  shows "list_all (\<lambda>s. s_name s \<noteq> [] \<and> nul_free (s_name s)) ss \<Longrightarrow>
         sorted_wrt (<) (map s_name ss) \<Longrightarrow>
         (prev = [] \<and> n_prev = 0) \<or> (prev \<noteq> [] \<and> nul_free prev \<and> (\<forall>s \<in> set ss. prev < s_name s)) \<Longrightarrow>
         \<exists>p. fst (scopes_loop sep ss prev n_prev out) = Inr p"
proof (induction ss arbitrary: prev n_prev out)
  case Nil
  then show ?case by simp
next
  case (Cons s ss)
  have ne: "sep \<noteq> []" using assms by auto
  have s: "s_name s \<noteq> []" "nul_free (s_name s)" using Cons.prems(1) by simp_all
  from scope_close_returns[OF assms s(2), of prev n_prev out] Cons.prems(3)
  obtain m1 where m1: "fst (scope_close sep (s_name s) prev n_prev out) = Inr m1"
    "m1 \<le> length (s_name s)" by auto
  obtain out1 where c: "scope_close sep (s_name s) prev n_prev out = (Inr m1, out1)"
    using m1(1) by (cases "scope_close sep (s_name s) prev n_prev out") simp
  from scope_open_returns[OF ne m1(2), of out1] obtain m2 out2 where
    ob: "scope_open sep s m1 out1 = (Inr m2, out2)"
    by (cases "scope_open sep s m1 out1") auto
  have "\<exists>p. fst (scopes_loop sep ss (s_name s) m2 out2) = Inr p"
    using Cons.prems s by (intro Cons.IH) auto
  then show ?case using c ob by simp
qed

lemma close_rest_appends:
  "\<exists>d. snd (close_rest sep prev out) = out @ d \<and> list_all is_decl_line d"
proof (cases "prev = []")
  case True
  then show ?thesis by (simp add: close_rest_def)
next
  case False
  from close_loop_appends[of sep prev "string_find prev sep 0" "out @ [Print_upscope]"]
  obtain d where "snd (close_loop sep prev (string_find prev sep 0) (out @ [Print_upscope]))
      = (out @ [Print_upscope]) @ d" "list_all is_decl_line d" by blast
  then show ?thesis using False
    by (auto simp: close_rest_def is_decl_line_def intro!: exI[of _ "Print_upscope # d"])
qed

lemma close_rest_returns: "sep \<noteq> [] \<Longrightarrow> fst (close_rest sep prev out) = Inr ()"
  by (simp add: close_rest_def close_loop_returns)

lemma no_change_simps [simp]:
  "no_change []" "no_change (d1 @ d2) = (no_change d1 \<and> no_change d2)"
  "no_change (l # d) = (\<not> is_change l \<and> no_change d)"
  by (simp_all add: no_change_def)

lemma decl_lines_no_change: "list_all is_decl_line d \<Longrightarrow> no_change d"
  unfolding no_change_def by (rule decl_lines_not_change)

lemma header_lines_no_change: "no_change (header_lines h)"
  by (simp add: header_lines_def kw_names_def kw_values_def is_change_def)

section \<open>\<open>_write_header\<close> and \<open>_finalize_registration\<close>\<close>

lemma write_header_frame:
  "\<exists>d h. snd (write_header w) = w\<lparr>ofile := ofile w @ d, header := h\<rparr> \<and> no_change d
     \<and> (fst (write_header w) \<noteq> Inr () \<longrightarrow> h = header w)"
proof (cases "header w")
  case None
  then have "snd (write_header w) = w\<lparr>ofile := ofile w @ [], header := header w\<rparr>"
    by (simp add: write_header_def)
  then show ?thesis using no_change_simps(1) by blast
next
  case (Some h)
  define out0 where "out0 = ofile w @ header_lines h"
  obtain r1 out1 where sl: "scopes_loop (scope_sep w) (scopes w) [] 0 out0 = (r1, out1)"
    by (cases "scopes_loop (scope_sep w) (scopes w) [] 0 out0")
  with scopes_loop_appends[of "scope_sep w" "scopes w" "[]" 0 out0]
  obtain d1 where d1: "out1 = out0 @ d1" "list_all is_decl_line d1" by auto
  show ?thesis
  proof (cases r1)
    case (Inl e)
    then have "snd (write_header w) = w\<lparr>ofile := ofile w @ (header_lines h @ d1), header := header w\<rparr>"
      using Some sl d1 by (simp add: write_header_def out0_def)
    moreover have "no_change (header_lines h @ d1)"
      using d1 by (simp add: header_lines_no_change decl_lines_no_change)
    ultimately show ?thesis by blast
  next
    case (Inr prev)
    obtain r2 out2 where cr: "close_rest (scope_sep w) prev out1 = (r2, out2)"
      by (cases "close_rest (scope_sep w) prev out1")
    with close_rest_appends[of "scope_sep w" prev out1]
    obtain d2 where d2: "out2 = out1 @ d2" "list_all is_decl_line d2" by auto
    show ?thesis
    proof (cases r2)
      case (Inl e)
      then have "snd (write_header w)
          = w\<lparr>ofile := ofile w @ (header_lines h @ d1 @ d2), header := header w\<rparr>"
        using Some sl Inr cr d1 d2 by (simp add: write_header_def out0_def)
      moreover have "no_change (header_lines h @ d1 @ d2)"
        using d1 d2 by (simp add: header_lines_no_change decl_lines_no_change)
      ultimately show ?thesis by blast
    next
      case (Inr u)
      then have "snd (write_header w)
          = w\<lparr>ofile := ofile w @ (header_lines h @ d1 @ d2 @ [Print_enddefinitions]), header := None\<rparr>"
        and "fst (write_header w) = Inr ()"
        using Some sl \<open>r1 = Inr prev\<close> cr d1 d2 by (simp_all add: write_header_def out0_def)
      moreover have "no_change (header_lines h @ d1 @ d2 @ [Print_enddefinitions])"
        using d1 d2 by (simp add: header_lines_no_change decl_lines_no_change is_change_def)
      ultimately show ?thesis by blast
    qed
  qed
qed

lemma write_header_returns:
  assumes "wf_scopes w" "header w \<noteq> None"
  shows "fst (write_header w) = Inr ()"
proof -
  from assms(2) obtain h where h: "header w = Some h" by auto
  have sep: "scope_sep w = ''.''" "length (scope_sep w) = 1" "scope_sep w \<noteq> []"
    using assms(1) by (simp_all add: wf_scopes_def)
  from scopes_loop_returns[OF sep(2), of "scopes w" "[]" 0 "ofile w @ header_lines h"] assms(1)
  obtain prev out1 where sl:
    "scopes_loop (scope_sep w) (scopes w) [] 0 (ofile w @ header_lines h) = (Inr prev, out1)"
    by (cases "scopes_loop (scope_sep w) (scopes w) [] 0 (ofile w @ header_lines h)")
       (auto simp: wf_scopes_def)
  obtain out2 where cr: "close_rest (scope_sep w) prev out1 = (Inr (), out2)"
    using close_rest_returns[OF sep(3), of prev out1]
    by (cases "close_rest (scope_sep w) prev out1") simp
  show ?thesis using h sl cr by (simp add: write_header_def)
qed

lemma write_header_returns_header:
  "fst (write_header w) = Inr () \<Longrightarrow> header (snd (write_header w)) = None
     \<and> Print_enddefinitions \<in> set (ofile (snd (write_header w)))"
  by (auto simp: write_header_def split: option.splits prod.splits sum.splits)

lemma dump_values_frame:
  "\<exists>d. dump_values k w = w\<lparr>ofile := ofile w @ d\<rparr> \<and> no_change d"
proof -
  have "no_change (map (\<lambda>p. Print_value (snd p) (v_ident (fst p))) ps)" for ps
    by (induction ps) (simp_all add: is_change_def)
  then have nc: "no_change (Print_keyword k #
      map (\<lambda>p. Print_value (snd p) (v_ident (fst p))) (vars_prevs w) @ [Print_end])"
    by (simp add: is_change_def)
  show ?thesis
  proof (cases "dumping w")
    case True
    then have "dump_values k w = w\<lparr>ofile := ofile w @ (Print_keyword k #
        map (\<lambda>p. Print_value (snd p) (v_ident (fst p))) (vars_prevs w) @ [Print_end])\<rparr>"
      by (simp add: dump_values_def print_def Let_def)
    then show ?thesis using nc by blast
  next
    case False
    then have "dump_values k w = w\<lparr>ofile := ofile w @ [Print_keyword k]\<rparr>"
      by (simp add: dump_values_def print_def Let_def)
    moreover have "no_change [Print_keyword k]" by (simp add: is_change_def)
    ultimately show ?thesis by blast
  qed
qed

lemma dump_off_frame:
  "\<exists>d. dump_off t w = w\<lparr>ofile := ofile w @ d\<rparr> \<and> no_change d"
proof -
  have "no_change (concat (map dump_off_line ps))" for ps
    by (induction ps) (auto simp: dump_off_line_def is_change_def split: list.splits)
  then show ?thesis
    by (auto simp: dump_off_def print_def Let_def is_change_def
        intro!: exI[of _ "Print_time t # Print_dumpoff # concat (map dump_off_line (vars_prevs w)) @ [Print_end]"])
qed

lemma finalize_registration_frame:
  "\<exists>d h r. snd (finalize_registration w)
       = w\<lparr>ofile := ofile w @ d, header := h, registering := r, fin_calls := fin_calls w + 1\<rparr>
     \<and> no_change d \<and> (r \<longrightarrow> registering w \<and> h = header w)"
proof (cases "registering w")
  case False
  then have "snd (finalize_registration w)
      = w\<lparr>ofile := ofile w @ [], header := header w, registering := False,
           fin_calls := fin_calls w + 1\<rparr>"
    by (simp add: finalize_registration_def Let_def)
  then show ?thesis using no_change_simps(1) by blast
next
  case True
  define w0 where "w0 = w\<lparr>fin_calls := Suc (fin_calls w)\<rparr>"
  have rw0: "registering w0" using True by (simp add: w0_def)
  obtain r1 w1 where wh: "write_header w0 = (r1, w1)" by (cases "write_header w0")
  from write_header_frame[of w0] obtain d1 h1 where
    w1': "snd (write_header w0) = w0\<lparr>ofile := ofile w0 @ d1, header := h1\<rparr>" "no_change d1"
    "fst (write_header w0) \<noteq> Inr () \<longrightarrow> h1 = header w0" by blast
  have w1: "w1 = w0\<lparr>ofile := ofile w0 @ d1, header := h1\<rparr>" "no_change d1"
    "r1 \<noteq> Inr () \<longrightarrow> h1 = header w0" using w1' wh by simp_all
  show ?thesis
  proof (cases r1)
    case (Inl e)
    then have "snd (finalize_registration w)
        = w\<lparr>ofile := ofile w @ d1, header := h1, registering := True, fin_calls := fin_calls w + 1\<rparr>"
      using rw0 wh w1 by (simp add: finalize_registration_def Let_def w0_def[symmetric]) (simp add: w0_def)
    moreover have "h1 = header w" using w1(3) Inl by (simp add: w0_def)
    ultimately show ?thesis using w1(2) True by blast
  next
    case (Inr u)
    define w2 where "w2 = (if vars_prevs w1 \<noteq> [] then
                             (let w3 = dump_values ''$dumpvars'' (print (Print_time (timestamp w1)) w1)
                              in if \<not> dumping w3 then dump_off (timestamp w3) w3 else w3)
                           else w1)"
    have "\<exists>d2. w2 = w1\<lparr>ofile := ofile w1 @ d2\<rparr> \<and> no_change d2"
    proof (cases "vars_prevs w1 \<noteq> []")
      case False
      then have "w2 = w1\<lparr>ofile := ofile w1 @ []\<rparr>" by (simp add: w2_def)
      then show ?thesis using no_change_simps(1) by blast
    next
      case True
      define wp where "wp = print (Print_time (timestamp w1)) w1"
      from dump_values_frame[of "''$dumpvars''" wp] obtain d3 where
        d3: "dump_values ''$dumpvars'' wp = wp\<lparr>ofile := ofile wp @ d3\<rparr>" "no_change d3" by blast
      define w3 where "w3 = dump_values ''$dumpvars'' wp"
      from dump_off_frame[of "timestamp w3" w3] obtain d4 where
        d4: "dump_off (timestamp w3) w3 = w3\<lparr>ofile := ofile w3 @ d4\<rparr>" "no_change d4" by blast
      show ?thesis
      proof (cases "dumping w3")
        case True
        then have "w2 = w1\<lparr>ofile := ofile w1 @ (Print_time (timestamp w1) # d3)\<rparr>"
          using \<open>vars_prevs w1 \<noteq> []\<close> d3 by (simp add: w2_def wp_def[symmetric] w3_def[symmetric] Let_def) (simp add: w3_def wp_def print_def)
        moreover have "no_change (Print_time (timestamp w1) # d3)" using d3 by (simp add: is_change_def)
        ultimately show ?thesis by blast
      next
        case False
        then have "w2 = w1\<lparr>ofile := ofile w1 @ (Print_time (timestamp w1) # d3 @ d4)\<rparr>"
          using \<open>vars_prevs w1 \<noteq> []\<close> d3 d4 by (simp add: w2_def wp_def[symmetric] w3_def[symmetric] Let_def) (simp add: w3_def wp_def print_def)
        moreover have "no_change (Print_time (timestamp w1) # d3 @ d4)" using d3 d4 by (simp add: is_change_def)
        ultimately show ?thesis by blast
      qed
    qed
    then obtain d2 where d2: "w2 = w1\<lparr>ofile := ofile w1 @ d2\<rparr>" "no_change d2" by blast
    have "snd (finalize_registration w) = w2\<lparr>registering := False\<rparr>"
      using rw0 wh Inr by (simp add: finalize_registration_def Let_def w0_def[symmetric] w2_def[symmetric])
    then have "snd (finalize_registration w)
        = w\<lparr>ofile := ofile w @ (d1 @ d2), header := h1, registering := False, fin_calls := fin_calls w + 1\<rparr>"
      using d2 w1 by (simp add: w0_def)
    moreover have "no_change (d1 @ d2)" using d2 w1 by simp
    ultimately show ?thesis by blast
  qed
qed

lemma finalize_registration_returns:
  assumes "wf_scopes w" "header w \<noteq> None" "registering w"
  shows "fst (finalize_registration w) = Inr ()
       \<and> \<not> registering (snd (finalize_registration w))
       \<and> header (snd (finalize_registration w)) = None
       \<and> Print_enddefinitions \<in> set (ofile (snd (finalize_registration w)))"
proof -
  define w0 where "w0 = w\<lparr>fin_calls := Suc (fin_calls w)\<rparr>"
  have rw0: "registering w0" using assms(3) by (simp add: w0_def)
  have "wf_scopes w0" "header w0 \<noteq> None" using assms by (simp_all add: w0_def wf_scopes_def)
  then have r: "fst (write_header w0) = Inr ()" by (rule write_header_returns)
  then obtain w1 where wh: "write_header w0 = (Inr (), w1)" by (cases "write_header w0") simp
  with write_header_returns_header[OF r] have h1: "header w1 = None"
    "Print_enddefinitions \<in> set (ofile w1)" by simp_all
  define w2 where "w2 = (if vars_prevs w1 \<noteq> [] then
                             (let w3 = dump_values ''$dumpvars'' (print (Print_time (timestamp w1)) w1)
                              in if \<not> dumping w3 then dump_off (timestamp w3) w3 else w3)
                           else w1)"
  have fin: "finalize_registration w = (Inr (), w2\<lparr>registering := False\<rparr>)"
    using rw0 wh by (simp add: finalize_registration_def Let_def w0_def[symmetric] w2_def[symmetric])
  have "header w2 = None \<and> Print_enddefinitions \<in> set (ofile w2)"
  proof -
    define wp where "wp = print (Print_time (timestamp w1)) w1"
    from dump_values_frame[of "''$dumpvars''" wp] obtain d3 where
      d3: "dump_values ''$dumpvars'' wp = wp\<lparr>ofile := ofile wp @ d3\<rparr>" by blast
    define w3 where "w3 = dump_values ''$dumpvars'' wp"
    from dump_off_frame[of "timestamp w3" w3] obtain d4 where
      d4: "dump_off (timestamp w3) w3 = w3\<lparr>ofile := ofile w3 @ d4\<rparr>" by blast
    have "header w3 = None \<and> Print_enddefinitions \<in> set (ofile w3)"
      using d3 h1 by (simp add: w3_def wp_def print_def)
    moreover have "header (dump_off (timestamp w3) w3) = None
        \<and> Print_enddefinitions \<in> set (ofile (dump_off (timestamp w3) w3))"
      using d4 calculation by simp
    ultimately show ?thesis using h1
      by (simp add: w2_def Let_def wp_def[symmetric] w3_def[symmetric])
  qed
  then show ?thesis using fin by simp
qed

section \<open>\<open>_change\<close>\<close>

lemma time_advance_noop: "ts \<le> timestamp w \<Longrightarrow> time_advance ts w = (Inr (), w)"
  by (simp add: time_advance_def)

lemma time_advance_finalized:
  "timestamp w < ts \<Longrightarrow> \<not> registering w \<Longrightarrow>
   time_advance ts w
     = (Inr (), w\<lparr>ofile := ofile w @ (if dumping w then [Print_time ts] else []), timestamp := ts\<rparr>)"
  by (simp add: time_advance_def print_def)

lemma time_advance_frame:
  "\<exists>d h r f t. snd (time_advance ts w)
       = w\<lparr>ofile := ofile w @ d, header := h, registering := r, fin_calls := f, timestamp := t\<rparr>
     \<and> no_change d \<and> (r \<longrightarrow> registering w \<and> h = header w)"
proof -
  consider "ts \<le> timestamp w" | "timestamp w < ts" "\<not> registering w"
    | "timestamp w < ts" "registering w" by linarith
  then show ?thesis
  proof cases
    case 1
    then have "snd (time_advance ts w) = w\<lparr>ofile := ofile w @ [], header := header w,
        registering := registering w, fin_calls := fin_calls w, timestamp := timestamp w\<rparr>"
      by (simp add: time_advance_noop)
    then show ?thesis using no_change_simps(1) by blast
  next
    case 2
    then have "snd (time_advance ts w) = w\<lparr>ofile := ofile w @ (if dumping w then [Print_time ts] else []),
        header := header w, registering := registering w, fin_calls := fin_calls w, timestamp := ts\<rparr>"
      by (simp add: time_advance_finalized)
    moreover have "no_change (if dumping w then [Print_time ts] else [])"
      by (simp add: is_change_def)
    ultimately show ?thesis using 2 by blast
  next
    case 3
    obtain r1 w1 where f: "finalize_registration w = (r1, w1)" by (cases "finalize_registration w")
    from finalize_registration_frame[of w] obtain d h r where
      w1': "snd (finalize_registration w)
         = w\<lparr>ofile := ofile w @ d, header := h, registering := r, fin_calls := fin_calls w + 1\<rparr>"
      "no_change d" "r \<longrightarrow> registering w \<and> h = header w" by blast
    have w1: "w1 = w\<lparr>ofile := ofile w @ d, header := h, registering := r, fin_calls := fin_calls w + 1\<rparr>"
      "no_change d" "r \<longrightarrow> registering w \<and> h = header w"
      using w1' f by simp_all
    show ?thesis
    proof (cases r1)
      case (Inl e)
      then have "snd (time_advance ts w) = w\<lparr>ofile := ofile w @ d, header := h,
          registering := r, fin_calls := fin_calls w + 1, timestamp := timestamp w\<rparr>"
        using 3 f w1 by (simp add: time_advance_def)
      then show ?thesis using w1(2,3) 3 by blast
    next
      case (Inr u)
      then have "snd (time_advance ts w)
          = w\<lparr>ofile := ofile w @ (d @ (if dumping w then [Print_time ts] else [])), header := h,
          registering := r, fin_calls := fin_calls w + 1, timestamp := ts\<rparr>"
        using 3 f w1 by (simp add: time_advance_def print_def)
      moreover have "no_change (d @ (if dumping w then [Print_time ts] else []))"
        using w1(2) by (simp add: is_change_def)
      ultimately show ?thesis using 3 w1(3) by blast
    qed
  qed
qed

lemma time_advance_returns_finalized:
  assumes "fst (time_advance ts w) = Inr ()" "timestamp w < ts"
  shows "\<not> registering (snd (time_advance ts w)) \<and> timestamp (snd (time_advance ts w)) = ts"
proof (cases "registering w")
  case False
  then show ?thesis using assms(2) by (simp add: time_advance_finalized)
next
  case True
  then show ?thesis using assms
    by (auto simp: time_advance_def finalize_registration_def Let_def print_def
             split: prod.splits sum.splits if_splits)
qed

text \<open>The second half of \<open>_change\<close> touches the tracker and appends at most the one
  value-change record, exactly when it returns true with dumping on and registration
  finished.\<close>

lemma track_change_frame:
  "\<exists>ps d. snd (track_change stod v value reg' w) = w\<lparr>vars_prevs := ps, ofile := ofile w @ d\<rparr>
     \<and> (d = [] \<or> (\<exists>cv. d = [Print_change cv (v_ident v)]))
     \<and> (d \<noteq> [] \<longleftrightarrow> fst (track_change stod v value reg' w) = Inr True \<and> dumping w \<and> \<not> registering w)"
proof -
  have keep: "\<exists>ps d. w = w\<lparr>vars_prevs := ps, ofile := ofile w @ d\<rparr> \<and> d = []"
    by (intro exI[of _ "vars_prevs w"] exI[of _ "[]"]) simp
  have dc: "\<exists>ps d. snd (dump_change v cv (w\<lparr>vars_prevs := ps0\<rparr>)) = w\<lparr>vars_prevs := ps, ofile := ofile w @ d\<rparr>
     \<and> (d = [] \<or> (\<exists>cv. d = [Print_change cv (v_ident v)]))
     \<and> (d \<noteq> [] \<longleftrightarrow> fst (dump_change v cv (w\<lparr>vars_prevs := ps0\<rparr>)) = Inr True \<and> dumping w \<and> \<not> registering w)"
    for cv ps0
  proof (cases "dumping w \<and> \<not> registering w")
    case True
    then show ?thesis
      by (intro exI[of _ ps0] exI[of _ "[Print_change cv (v_ident v)]"])
         (simp add: dump_change_def print_def)
  next
    case False
    then show ?thesis
      by (intro exI[of _ ps0] exI[of _ "[]"]) (auto simp: dump_change_def print_def)
  qed
  show ?thesis
  proof (cases "change_record stod v value")
    case (Inl e)
    then show ?thesis using keep by (simp add: track_change_def)
  next
    case (Inr cv)
    show ?thesis
    proof (cases "vars_prevs_find (vars_prevs w) v")
      case None
      show ?thesis
      proof (cases reg')
        case True
        then show ?thesis using Inr None dc[of cv "vars_prevs w @ [(v, cv)]"]
          by (simp add: track_change_def)
      next
        case False
        then show ?thesis using Inr None keep by (simp add: track_change_def)
      qed
    next
      case (Some it)
      show ?thesis
      proof (cases "snd it = cv")
        case True
        then show ?thesis using Inr Some keep by (simp add: track_change_def)
      next
        case False
        then show ?thesis using Inr Some dc[of cv "vars_prevs_assign (vars_prevs w) v cv"]
          by (simp add: track_change_def)
      qed
    qed
  qed
qed

lemma change'_frame:
  "\<exists>d ps h r f t. snd (change' stod vo ts value reg' w)
       = w\<lparr>ofile := ofile w @ d, vars_prevs := ps, header := h, registering := r,
           fin_calls := f, timestamp := t\<rparr>
     \<and> (\<not> no_change d \<longleftrightarrow>
          fst (change' stod vo ts value reg' w) = Inr True
          \<and> dumping w \<and> \<not> r)
     \<and> (r \<longrightarrow> registering w \<and> h = header w)"
proof -
  have keep: "w = w\<lparr>ofile := ofile w @ [], vars_prevs := vars_prevs w, header := header w,
           registering := registering w, fin_calls := fin_calls w, timestamp := timestamp w\<rparr>"
    by simp
  show ?thesis
  proof (cases "ts < timestamp w \<or> closed w \<or> vo = None")
    case True
    then have "snd (change' stod vo ts value reg' w) = w
        \<and> fst (change' stod vo ts value reg' w) \<noteq> Inr True"
      by (auto simp: change'_def split: option.splits)
    then show ?thesis using keep
      by (intro exI[of _ "[]"] exI[of _ "vars_prevs w"] exI[of _ "header w"]
        exI[of _ "registering w"] exI[of _ "fin_calls w"] exI[of _ "timestamp w"]) simp
  next
    case False
    then obtain v where v: "vo = Some v" by auto
    obtain r1 w1 where ta: "time_advance ts w = (r1, w1)" by (cases "time_advance ts w")
    from time_advance_frame[of ts w] obtain d1 h r f t where
      w1': "snd (time_advance ts w)
         = w\<lparr>ofile := ofile w @ d1, header := h, registering := r, fin_calls := f, timestamp := t\<rparr>"
      "no_change d1" "r \<longrightarrow> registering w \<and> h = header w" by blast
    have w1: "w1 = w\<lparr>ofile := ofile w @ d1, header := h, registering := r, fin_calls := f, timestamp := t\<rparr>"
      "no_change d1" "r \<longrightarrow> registering w \<and> h = header w"
      using w1' ta by simp_all
    show ?thesis
    proof (cases r1)
      case (Inl e)
      then have "snd (change' stod vo ts value reg' w) = w1
         \<and> fst (change' stod vo ts value reg' w) \<noteq> Inr True"
        using False v ta by (simp add: change'_def)
      then show ?thesis using w1
        by (intro exI[of _ d1] exI[of _ "vars_prevs w"] exI[of _ h] exI[of _ r] exI[of _ f] exI[of _ t])
           simp
    next
      case (Inr u)
      from track_change_frame[of stod v "value" reg' w1] obtain ps d2 where
        tc: "snd (track_change stod v value reg' w1) = w1\<lparr>vars_prevs := ps, ofile := ofile w1 @ d2\<rparr>"
        "d2 = [] \<or> (\<exists>cv. d2 = [Print_change cv (v_ident v)])"
        "d2 \<noteq> [] \<longleftrightarrow> fst (track_change stod v value reg' w1) = Inr True \<and> dumping w1 \<and> \<not> registering w1"
        by blast
      have c: "change' stod vo ts value reg' w = track_change stod v value reg' w1"
        using False v ta Inr by (simp add: change'_def)
      have nc: "\<not> no_change (d1 @ d2) \<longleftrightarrow> d2 \<noteq> []"
        using w1(2) tc(2) by (auto simp: is_change_def)
      show ?thesis
        using c tc w1 nc
        by (intro exI[of _ "d1 @ d2"] exI[of _ ps] exI[of _ h] exI[of _ r] exI[of _ f] exI[of _ t])
           simp
    qed
  qed
qed

section \<open>\<open>register_var\<close> and \<open>set_scope_type\<close>\<close>

lemma wf_scopes_names:
  "wf_scopes w = (scope_sep w = ''.'' \<and> sorted_wrt (<) (map s_name (scopes w)) \<and>
      list_all (\<lambda>n. n \<noteq> [] \<and> nul_free n) (map s_name (scopes w)))"
  by (simp add: wf_scopes_def list.pred_map comp_def)

lemma map_insort_key: "map f (insort_key f x xs) = insort (f x) (map f xs)"
  by (induction xs) simp_all

lemma list_all_insort: "list_all P (insort x xs) = (P x \<and> list_all P xs)"
  by (auto simp: list_all_iff set_insort_key)

lemma definitions_first_append: "definitions_first out \<Longrightarrow> definitions_first (out @ d)"
  by (auto simp: definitions_first_def takeWhile_append1)

lemma definitions_first_start:
  assumes "Print_enddefinitions \<in> set d" "no_change d"
  shows "definitions_first d"
proof -
  have "set (takeWhile (\<lambda>l. l \<noteq> Print_enddefinitions) d) \<subseteq> set d"
    by (auto dest: set_takeWhileD)
  then show ?thesis using assms by (auto simp: definitions_first_def no_change_def list_all_iff)
qed

lemma strict_sorted_insort:
  "sorted_wrt (<) (xs :: string list) \<Longrightarrow> x \<notin> set xs \<Longrightarrow> sorted_wrt (<) (insort x xs)"
  by (simp add: strict_sorted_iff sorted_insort distinct_insort)

lemma change'_same_time:
  "\<not> closed w \<Longrightarrow> change' stod (Some v) (timestamp w) value reg' w = track_change stod v value reg' w"
  by (simp add: change'_def time_advance_def)

lemma track_change_registering:
  assumes "registering w"
  shows "\<exists>ps. snd (track_change stod v value reg' w) = w\<lparr>vars_prevs := ps\<rparr>"
proof -
  from track_change_frame[of stod v "value" reg' w] obtain ps d where
    "snd (track_change stod v value reg' w) = w\<lparr>vars_prevs := ps, ofile := ofile w @ d\<rparr>"
    "d \<noteq> [] \<longleftrightarrow> fst (track_change stod v value reg' w) = Inr True \<and> dumping w \<and> \<not> registering w"
    by blast
  with assms have "snd (track_change stod v value reg' w) = w\<lparr>vars_prevs := ps\<rparr>" by simp
  then show ?thesis by blast
qed

lemma find_or_insert_scope_result:
  "\<exists>ss. find_or_insert_scope scope w = (Inr (), w\<lparr>scopes := ss\<rparr>) \<and>
     (map s_name ss = map s_name (scopes w) \<or>
      (scope \<notin> set (map s_name (scopes w)) \<and> map s_name ss = insort scope (map s_name (scopes w))))"
proof (cases "scopes_find (scopes w) scope")
  case (Some s)
  then have "find_or_insert_scope scope w = (Inr (), w\<lparr>scopes := scopes w\<rparr>)"
    by (simp add: find_or_insert_scope_def)
  then show ?thesis by blast
next
  case None
  define new where "new = \<lparr> s_name = scope, s_type = scope_def_type w, s_vars = [] \<rparr>"
  have nin: "scope \<notin> set (map s_name (scopes w))"
    using None by (auto simp: scopes_find_def find_None_iff)
  have "find_or_insert_scope scope w = (Inr (), w\<lparr>scopes := insort_key s_name new (scopes w)\<rparr>)"
    using None by (simp add: find_or_insert_scope_def scopes_insert_def new_def)
  moreover have "map s_name (insort_key s_name new (scopes w)) = insort scope (map s_name (scopes w))"
    by (simp add: map_insort_key new_def)
  ultimately show ?thesis using nin by blast
qed

lemma scopes_push_var_names [simp]: "map s_name (scopes_push_var ss sc v) = map s_name ss"
  by (induction ss) (simp_all add: scopes_push_var_def)

text \<open>What \<open>register_var\<close> can change, whether it returns or throws.\<close>

lemma register_var_frame:
  "\<exists>ss vs ps n. snd (register_var stod scope name t sz' init dup w)
       = w\<lparr>scopes := ss, vars := vs, vars_prevs := ps, next_var_id := n\<rparr>
     \<and> (map s_name ss = map s_name (scopes w) \<or>
        (scope \<noteq> [] \<and> scope \<notin> set (map s_name (scopes w))
         \<and> map s_name ss = insort scope (map s_name (scopes w))))"
proof -
  have keep: "\<exists>ss vs ps n. w = w\<lparr>scopes := ss, vars := vs, vars_prevs := ps, next_var_id := n\<rparr>
     \<and> map s_name ss = map s_name (scopes w)"
    by (intro exI[of _ "scopes w"] exI[of _ "vars w"] exI[of _ "vars_prevs w"]
          exI[of _ "next_var_id w"]) simp
  show ?thesis
  proof (cases "closed w \<or> \<not> registering w \<or> length scope = 0 \<or> length name = 0")
    case True
    then have "snd (register_var stod scope name t sz' init dup w) = w"
      by (auto simp: register_var_def)
    then show ?thesis using keep by auto
  next
    case False
    from find_or_insert_scope_result[of scope w] obtain ss where
      fo: "find_or_insert_scope scope w = (Inr (), w\<lparr>scopes := ss\<rparr>)"
      and ss: "map s_name ss = map s_name (scopes w) \<or>
         (scope \<notin> set (map s_name (scopes w)) \<and> map s_name ss = insort scope (map s_name (scopes w)))"
      by blast
    define w1 where "w1 = w\<lparr>scopes := ss\<rparr>"
    have ss': "map s_name ss = map s_name (scopes w) \<or>
        (scope \<noteq> [] \<and> scope \<notin> set (map s_name (scopes w))
         \<and> map s_name ss = insort scope (map s_name (scopes w)))"
      using ss False by auto
    show ?thesis
    proof (cases "make_var name t sz' scope (next_var_id w1) init")
      case (Inl e)
      then have "snd (register_var stod scope name t sz' init dup w)
          = w\<lparr>scopes := ss, vars := vars w, vars_prevs := vars_prevs w, next_var_id := next_var_id w\<rparr>"
        using False fo by (simp add: register_var_def w1_def)
      then show ?thesis using ss' by blast
    next
      case (Inr pi)
      obtain pvar init_value where pi: "pi = (pvar, init_value)" by (cases pi)
      define c where "c = (if t \<noteq> event
                         then change' stod (Some pvar) (timestamp w1) init_value True w1
                         else (Inr False, w1))"
      have "\<exists>ps. snd c = w1\<lparr>vars_prevs := ps\<rparr>"
      proof (cases "t = event")
        case True
        then have "snd c = w1\<lparr>vars_prevs := vars_prevs w1\<rparr>" by (simp add: c_def)
        then show ?thesis by blast
      next
        case False
        have "\<not> closed w1" "registering w1" using \<open>\<not> (closed w \<or> _)\<close> by (simp_all add: w1_def)
        then show ?thesis
          using False track_change_registering[of w1 stod pvar init_value True]
          by (simp add: c_def change'_same_time)
      qed
      then obtain ps where ps: "snd c = w1\<lparr>vars_prevs := ps\<rparr>" by blast
      obtain r2 w2 where c2: "c = (r2, w2)" by (cases c)
      with ps have w2: "w2 = w\<lparr>scopes := ss, vars_prevs := ps\<rparr>" by (simp add: w1_def)
      have reg: "register_var stod scope name t sz' init dup w =
          (case c of
             (Inl e, w2) \<Rightarrow> (Inl e, w2)
           | (Inr b, w2) \<Rightarrow>
               if dup \<and> vars_find (vars w2) pvar \<noteq> None
               then (Inl (VCDTypeException DuplicateVar), w2)
               else (Inr pvar,
                     w2\<lparr>vars := vars_insert (vars w2) pvar,
                        scopes := scopes_push_var (scopes w2) scope pvar,
                        next_var_id := (next_var_id w2 + 1) mod 2 ^ 32\<rparr>))"
        using False fo Inr pi by (simp add: register_var_def w1_def[symmetric] c_def)
      show ?thesis
      proof (cases "(\<exists>e. r2 = Inl e) \<or> (dup \<and> vars_find (vars w2) pvar \<noteq> None)")
        case True
        then have "snd (register_var stod scope name t sz' init dup w) = w2"
          using reg c2 by (auto split: sum.splits)
        then have "snd (register_var stod scope name t sz' init dup w)
            = w\<lparr>scopes := ss, vars := vars w, vars_prevs := ps, next_var_id := next_var_id w\<rparr>"
          using w2 by simp
        then show ?thesis using ss' by blast
      next
        case False
        then have "snd (register_var stod scope name t sz' init dup w)
            = w2\<lparr>vars := vars_insert (vars w2) pvar,
                 scopes := scopes_push_var (scopes w2) scope pvar,
                 next_var_id := (next_var_id w2 + 1) mod 2 ^ 32\<rparr>"
          using reg c2 by (auto split: sum.splits)
        then have "snd (register_var stod scope name t sz' init dup w)
            = w\<lparr>scopes := scopes_push_var ss scope pvar, vars := vars_insert (vars w) pvar,
                 vars_prevs := ps, next_var_id := (next_var_id w + 1) mod 2 ^ 32\<rparr>"
          using w2 by simp
        moreover have "map s_name (scopes_push_var ss scope pvar) = map s_name ss" by simp
        ultimately show ?thesis using ss' by (metis (no_types))
      qed
    qed
  qed
qed

lemma set_scope_type_frame:
  "\<exists>ss. snd (set_scope_type scope t w) = w\<lparr>scopes := ss\<rparr> \<and> map s_name ss = map s_name (scopes w)"
proof (cases "scopes_find (scopes w) scope")
  case None
  then have "snd (set_scope_type scope t w) = w\<lparr>scopes := scopes w\<rparr>"
    by (simp add: set_scope_type_def)
  then show ?thesis by blast
next
  case (Some s)
  have "map s_name (map (\<lambda>s. if s_name s = scope then s\<lparr>s_type := t\<rparr> else s) ss) = map s_name ss"
    for ss :: "VCDScope list" by (induction ss) simp_all
  then show ?thesis using Some by (auto simp: set_scope_type_def)
qed

section \<open>Invariants of the writer\<close>

lemma basic_inv_new: "basic_inv hdr (VCDWriter_new hdr ts0)"
  by (simp add: basic_inv_def VCDWriter_new_def)

lemma writer_inv_new: "writer_inv ts0 (VCDWriter_new hdr ts0)"
  by (simp add: writer_inv_def wf_scopes_def VCDWriter_new_def)

lemma register_var_basic_inv:
  assumes "basic_inv hdr w"
  shows "basic_inv hdr (snd (register_var stod scope name t sz' init dup w))"
proof -
  from register_var_frame[of stod scope name t sz' init dup w] obtain ss vs ps n where
    f: "snd (register_var stod scope name t sz' init dup w)
       = w\<lparr>scopes := ss, vars := vs, vars_prevs := ps, next_var_id := n\<rparr>"
    and ss: "map s_name ss = map s_name (scopes w) \<or>
        (scope \<noteq> [] \<and> scope \<notin> set (map s_name (scopes w))
         \<and> map s_name ss = insort scope (map s_name (scopes w)))"
    by blast
  have "sorted_wrt (<) (map s_name ss)"
    using ss assms strict_sorted_insort[of "map s_name (scopes w)" scope]
    by (auto simp: basic_inv_def)
  then show ?thesis using assms by (simp add: f basic_inv_def)
qed

lemma register_var_inv:
  assumes "writer_inv ts0 w" "nul_free scope"
  shows "writer_inv ts0 (snd (register_var stod scope name t sz' init dup w))"
proof -
  from register_var_frame[of stod scope name t sz' init dup w] obtain ss vs ps n where
    f: "snd (register_var stod scope name t sz' init dup w)
       = w\<lparr>scopes := ss, vars := vs, vars_prevs := ps, next_var_id := n\<rparr>"
    and ss: "map s_name ss = map s_name (scopes w) \<or>
        (scope \<noteq> [] \<and> scope \<notin> set (map s_name (scopes w))
         \<and> map s_name ss = insort scope (map s_name (scopes w)))"
    by blast
  have w: "wf_scopes w" using assms(1) by (simp add: writer_inv_def)
  have "sorted_wrt (<) (map s_name ss)"
    using ss w strict_sorted_insort[of "map s_name (scopes w)" scope]
    by (auto simp: wf_scopes_names)
  moreover have "list_all (\<lambda>n. n \<noteq> [] \<and> nul_free n) (map s_name ss)"
  proof -
    have a: "list_all (\<lambda>n. n \<noteq> [] \<and> nul_free n) (map s_name (scopes w))"
      using w by (simp only: wf_scopes_names)
    from ss show ?thesis
    proof
      assume "map s_name ss = map s_name (scopes w)"
      then show ?thesis using a by (simp only:)
    next
      assume b: "scope \<noteq> [] \<and> scope \<notin> set (map s_name (scopes w))
         \<and> map s_name ss = insort scope (map s_name (scopes w))"
      then have "list_all (\<lambda>n. n \<noteq> [] \<and> nul_free n) (insort scope (map s_name (scopes w)))"
        using a assms(2) by (simp only: list_all_insort) simp
      then show ?thesis using b by (simp only:)
    qed
  qed
  ultimately have "wf_scopes (w\<lparr>scopes := ss, vars := vs, vars_prevs := ps, next_var_id := n\<rparr>)"
    using w by (simp add: wf_scopes_names)
  then show ?thesis using assms(1) by (simp add: f writer_inv_def)
qed

lemma set_scope_type_basic_inv:
  assumes "basic_inv hdr w"
  shows "basic_inv hdr (snd (set_scope_type scope t w))"
proof -
  from set_scope_type_frame[of scope t w] obtain ss where
    "snd (set_scope_type scope t w) = w\<lparr>scopes := ss\<rparr>" "map s_name ss = map s_name (scopes w)"
    by blast
  then show ?thesis using assms by (simp add: basic_inv_def)
qed

lemma set_scope_type_inv:
  assumes "writer_inv ts0 w"
  shows "writer_inv ts0 (snd (set_scope_type scope t w))"
proof -
  from set_scope_type_frame[of scope t w] obtain ss where
    f: "snd (set_scope_type scope t w) = w\<lparr>scopes := ss\<rparr>" "map s_name ss = map s_name (scopes w)"
    by blast
  have "wf_scopes (w\<lparr>scopes := ss\<rparr>)" using assms f(2) by (simp add: writer_inv_def wf_scopes_names)
  then show ?thesis using assms by (simp add: f writer_inv_def)
qed

lemma change'_basic_inv:
  assumes "basic_inv hdr w"
  shows "basic_inv hdr (snd (change' stod vo ts value reg' w))"
proof -
  from change'_frame[of stod vo ts "value" reg' w] obtain d ps h r f t where
    "snd (change' stod vo ts value reg' w)
       = w\<lparr>ofile := ofile w @ d, vars_prevs := ps, header := h, registering := r,
           fin_calls := f, timestamp := t\<rparr>"
    "r \<longrightarrow> registering w \<and> h = header w" by blast
  then show ?thesis using assms by (simp add: basic_inv_def)
qed

lemma change_basic_inv: "basic_inv hdr w \<Longrightarrow> basic_inv hdr (snd (change stod scope name ts value w))"
  by (simp add: change_def change'_basic_inv split: sum.splits)

lemma exec_basic_inv: "basic_inv hdr w \<Longrightarrow> basic_inv hdr (exec stod c w)"
  by (cases c) (simp_all add: register_var_basic_inv change_basic_inv set_scope_type_basic_inv)

lemma run_basic_inv: "basic_inv hdr w \<Longrightarrow> basic_inv hdr (run stod cs w)"
  by (induction cs arbitrary: w) (simp_all add: exec_basic_inv)

text \<open>With well-formed scopes the time block of \<open>_change\<close> returns, and finalizes the
  registration when it advances the time.\<close>

lemma time_advance_inv:
  assumes "writer_inv ts0 w"
  shows "\<exists>d. time_advance ts w = (Inr (), snd (time_advance ts w))
     \<and> writer_inv ts0 (snd (time_advance ts w))
     \<and> ofile (snd (time_advance ts w)) = ofile w @ d \<and> no_change d
     \<and> vars_prevs (snd (time_advance ts w)) = vars_prevs w
     \<and> vars (snd (time_advance ts w)) = vars w
     \<and> (timestamp w \<le> ts \<longrightarrow> timestamp (snd (time_advance ts w)) = ts)
     \<and> (timestamp w < ts \<longrightarrow> \<not> registering (snd (time_advance ts w)))
     \<and> (ts \<le> timestamp w \<longrightarrow> snd (time_advance ts w) = w)"
proof -
  consider "ts \<le> timestamp w" | "timestamp w < ts" "\<not> registering w"
    | "timestamp w < ts" "registering w" by linarith
  then show ?thesis
  proof cases
    case 1
    then show ?thesis using assms by (simp add: time_advance_noop)
  next
    case 2
    define tm where "tm = (if dumping w then [Print_time ts] else [])"
    have nc: "no_change tm" by (simp add: tm_def is_change_def)
    have ta: "time_advance ts w = (Inr (), w\<lparr>ofile := ofile w @ tm, timestamp := ts\<rparr>)"
      using 2 by (simp add: time_advance_finalized tm_def)
    from assms 2 have "definitions_first (ofile w @ tm)"
      by (auto simp: writer_inv_def definitions_first_append)
    then have "writer_inv ts0 (w\<lparr>ofile := ofile w @ tm, timestamp := ts\<rparr>)"
      using assms 2 by (auto simp: writer_inv_def wf_scopes_def)
    then show ?thesis using ta nc 2 by auto
  next
    case 3
    have pre: "wf_scopes w" "header w \<noteq> None" "ofile w = []" "fin_calls w = 0" "timestamp w = ts0"
      "\<not> closed w"
      using assms 3 by (simp_all add: writer_inv_def)
    from finalize_registration_returns[OF pre(1,2) 3(2)] have fr:
      "fst (finalize_registration w) = Inr ()"
      "\<not> registering (snd (finalize_registration w))"
      "Print_enddefinitions \<in> set (ofile (snd (finalize_registration w)))" by simp_all
    from finalize_registration_frame[of w] obtain d h r where
      ff: "snd (finalize_registration w)
        = w\<lparr>ofile := ofile w @ d, header := h, registering := r, fin_calls := fin_calls w + 1\<rparr>"
      "no_change d" by blast
    define wf where "wf = snd (finalize_registration w)"
    have fin: "finalize_registration w = (Inr (), wf)"
      using fr(1) by (cases "finalize_registration w") (simp add: wf_def)
    define tm where "tm = (if dumping wf then [Print_time ts] else [])"
    have nc: "no_change tm" by (simp add: tm_def is_change_def)
    have ta: "time_advance ts w = (Inr (), wf\<lparr>ofile := ofile wf @ tm, timestamp := ts\<rparr>)"
      using 3 fin by (simp add: time_advance_def print_def tm_def)
    have wf_eq: "wf = w\<lparr>ofile := d, header := h, registering := False, fin_calls := 1\<rparr>"
      using ff(1) fr(2) pre by (simp add: wf_def)
    have "Print_enddefinitions \<in> set d" using fr(3) wf_eq by (simp add: wf_def)
    then have "definitions_first (d @ tm)"
      using ff(2) by (intro definitions_first_append definitions_first_start)
    then have "writer_inv ts0 (wf\<lparr>ofile := ofile wf @ tm, timestamp := ts\<rparr>)"
      using pre 3 by (auto simp: writer_inv_def wf_scopes_def wf_eq)
    moreover have "ofile (wf\<lparr>ofile := ofile wf @ tm, timestamp := ts\<rparr>) = ofile w @ (d @ tm)"
      using pre by (simp add: wf_eq)
    moreover have "no_change (d @ tm)" using ff(2) nc by simp
    ultimately show ?thesis using ta 3 by (auto simp: wf_eq)
  qed
qed

lemma track_change_inv:
  assumes "writer_inv ts0 w"
  shows "writer_inv ts0 (snd (track_change stod v value reg' w))"
proof -
  from track_change_frame[of stod v "value" reg' w] obtain ps d where
    f: "snd (track_change stod v value reg' w) = w\<lparr>vars_prevs := ps, ofile := ofile w @ d\<rparr>"
    "d \<noteq> [] \<longleftrightarrow> fst (track_change stod v value reg' w) = Inr True \<and> dumping w \<and> \<not> registering w"
    by blast
  show ?thesis
  proof (cases "registering w")
    case True
    then have "d = []" using f(2) by auto
    then show ?thesis using assms by (simp add: f(1) writer_inv_def wf_scopes_def)
  next
    case False
    with assms have "definitions_first (ofile w @ d)"
      by (auto simp: writer_inv_def definitions_first_append)
    then show ?thesis using assms False by (auto simp: f(1) writer_inv_def wf_scopes_def)
  qed
qed

lemma change'_inv:
  assumes "writer_inv ts0 w"
  shows "writer_inv ts0 (snd (change' stod vo ts value reg' w))"
proof (cases "ts < timestamp w \<or> closed w \<or> vo = None")
  case True
  then have "snd (change' stod vo ts value reg' w) = w"
    by (auto simp: change'_def split: option.splits)
  then show ?thesis using assms by simp
next
  case False
  then obtain v where v: "vo = Some v" by auto
  from time_advance_inv[OF assms, of ts] have
    ta: "time_advance ts w = (Inr (), snd (time_advance ts w))"
    and i: "writer_inv ts0 (snd (time_advance ts w))" by auto
  define w1 where "w1 = snd (time_advance ts w)"
  have "change' stod vo ts value reg' w = track_change stod v value reg' w1"
    using False v ta[folded w1_def] by (simp add: change'_def)
  then have "change' stod vo ts value reg' w = track_change stod v value reg' (snd (time_advance ts w))"
    by (simp add: w1_def)
  then show ?thesis using track_change_inv[OF i] by simp
qed

lemma change_inv: "writer_inv ts0 w \<Longrightarrow> writer_inv ts0 (snd (change stod scope name ts value w))"
  by (simp add: change_def change'_inv split: sum.splits)

lemma exec_inv: "writer_inv ts0 w \<Longrightarrow> nul_free_call c \<Longrightarrow> writer_inv ts0 (exec stod c w)"
  by (cases c) (simp_all add: register_var_inv change_inv set_scope_type_inv nul_free_call_def)

lemma run_inv: "writer_inv ts0 w \<Longrightarrow> list_all nul_free_call cs \<Longrightarrow> writer_inv ts0 (run stod cs w)"
  by (induction cs arbitrary: w) (simp_all add: exec_inv)

text \<open>The invariant of the file is kept by every call: \<open>_finalize_registration\<close> ends
  the registration only after \<open>_write_header\<close> has printed the end of the definitions.\<close>

lemma file_inv_new: "file_inv (VCDWriter_new hdr ts0)"
  by (simp add: file_inv_def VCDWriter_new_def)

lemma register_var_file_inv:
  "file_inv w \<Longrightarrow> file_inv (snd (register_var stod scope name t sz' init dup w))"
proof -
  assume a: "file_inv w"
  from register_var_frame[of stod scope name t sz' init dup w] obtain ss vs ps n where
    "snd (register_var stod scope name t sz' init dup w)
       = w\<lparr>scopes := ss, vars := vs, vars_prevs := ps, next_var_id := n\<rparr>" by blast
  then show ?thesis using a by (simp add: file_inv_def)
qed

lemma set_scope_type_file_inv:
  "file_inv w \<Longrightarrow> file_inv (snd (set_scope_type scope t w))"
proof -
  assume a: "file_inv w"
  from set_scope_type_frame[of scope t w] obtain ss where
    "snd (set_scope_type scope t w) = w\<lparr>scopes := ss\<rparr>" by blast
  then show ?thesis using a by (simp add: file_inv_def)
qed

lemma definitions_first_mid:
  assumes "Print_enddefinitions \<in> set a" "no_change a"
  shows "definitions_first (a @ c)"
  using definitions_first_append[OF definitions_first_start[OF assms]] .

lemma finalize_registration_flip:
  assumes "\<not> registering (snd (finalize_registration w))" "registering w"
  shows "Print_enddefinitions \<in> set (ofile (snd (finalize_registration w)))"
proof -
  define w' where "w' = w\<lparr>fin_calls := Suc (fin_calls w)\<rparr>"
  have rw: "registering w'" using assms(2) by (simp add: w'_def)
  obtain r1 w1 where wh: "write_header w' = (r1, w1)" by (cases "write_header w'")
  from write_header_frame[of w'] wh obtain d1 h1 where
    w1: "w1 = w'\<lparr>ofile := ofile w' @ d1, header := h1\<rparr>" by auto
  show ?thesis
  proof (cases r1)
    case (Inl e)
    then have "snd (finalize_registration w) = w1"
      using wh assms(2) rw by (simp add: finalize_registration_def w'_def[symmetric] Let_def)
    then show ?thesis using assms(1) rw w1 by simp
  next
    case (Inr u)
    then have e: "Print_enddefinitions \<in> set (ofile w1)"
      using write_header_returns_header[of w'] wh by simp
    define w3 where "w3 = dump_values ''$dumpvars'' (print (Print_time (timestamp w1)) w1)"
    from dump_values_frame[of "''$dumpvars''" "print (Print_time (timestamp w1)) w1"]
    have e3: "Print_enddefinitions \<in> set (ofile w3)"
      using e unfolding w3_def by (auto simp: print_def)
    from dump_off_frame[of "timestamp w3" w3]
    have e4: "Print_enddefinitions \<in> set (ofile (dump_off (timestamp w3) w3))"
      using e3 by auto
    have "ofile (snd (finalize_registration w))
        = ofile (if vars_prevs w1 \<noteq> [] then (if \<not> dumping w3 then dump_off (timestamp w3) w3 else w3)
                 else w1)"
      using wh assms(2) rw Inr
      by (simp add: finalize_registration_def w'_def[symmetric] Let_def w3_def)
    then show ?thesis using e e3 e4 by simp
  qed
qed

lemma finalize_registration_file_inv:
  assumes "file_inv w" "registering w"
  shows "file_inv (snd (finalize_registration w))"
proof -
  from finalize_registration_frame[of w] obtain d h r where
    f: "snd (finalize_registration w)
       = w\<lparr>ofile := ofile w @ d, header := h, registering := r, fin_calls := fin_calls w + 1\<rparr>"
    and d: "no_change d" by blast
  have n: "no_change (ofile w @ d)" using assms d by (simp add: file_inv_def no_change_def)
  show ?thesis
  proof (cases r)
    case True
    then show ?thesis using assms n by (simp add: f file_inv_def)
  next
    case False
    then have "\<not> registering (snd (finalize_registration w))" by (simp add: f)
    from finalize_registration_flip[OF this assms(2)]
    have "Print_enddefinitions \<in> set (ofile w @ d)" by (simp add: f)
    from definitions_first_start[OF this n] show ?thesis
      using assms False by (simp add: f file_inv_def)
  qed
qed

lemma print_time_file_inv: "file_inv w \<Longrightarrow> file_inv (print (Print_time ts) w)"
  by (auto simp: file_inv_def print_def no_change_def is_change_def definitions_first_append)

lemma time_advance_file_inv:
  assumes "file_inv w"
  shows "file_inv (snd (time_advance ts w))"
proof (cases "timestamp w < ts")
  case False
  then show ?thesis using assms by (simp add: time_advance_noop)
next
  case True
  define p where "p = (if registering w then finalize_registration w else (Inr (), w))"
  have i: "file_inv (snd p)"
    using assms by (simp add: p_def finalize_registration_file_inv)
  have "snd (time_advance ts w) = snd p
      \<or> snd (time_advance ts w)
          = (if dumping (snd p) then print (Print_time ts) (snd p) else snd p)\<lparr>timestamp := ts\<rparr>"
    using True by (cases p; cases "fst p") (auto simp: time_advance_def p_def[symmetric])
  moreover have "file_inv ((if dumping (snd p) then print (Print_time ts) (snd p) else snd p)\<lparr>timestamp := ts\<rparr>)"
    using print_time_file_inv[OF i, of ts] i by (simp add: file_inv_def)
  ultimately show ?thesis using i by auto
qed

lemma track_change_file_inv:
  assumes "file_inv w"
  shows "file_inv (snd (track_change stod v value reg' w))"
proof -
  from track_change_frame[of stod v "value" reg' w] obtain ps d where
    f: "snd (track_change stod v value reg' w) = w\<lparr>vars_prevs := ps, ofile := ofile w @ d\<rparr>"
    and d: "d \<noteq> [] \<longleftrightarrow> fst (track_change stod v value reg' w) = Inr True \<and> dumping w \<and> \<not> registering w"
    by blast
  show ?thesis
  proof (cases "registering w")
    case True
    then have "d = []" using d by auto
    then show ?thesis using assms True by (simp add: f file_inv_def)
  next
    case False
    then show ?thesis using assms by (simp add: f file_inv_def definitions_first_append)
  qed
qed

lemma change'_file_inv:
  assumes "file_inv w"
  shows "file_inv (snd (change' stod vo ts value reg' w))"
proof (cases "ts < timestamp w \<or> closed w \<or> vo = None")
  case True
  then have "snd (change' stod vo ts value reg' w) = w"
    by (auto simp: change'_def split: option.splits)
  then show ?thesis using assms by simp
next
  case False
  then obtain v where v: "vo = Some v" by auto
  obtain r1 w1 where ta: "time_advance ts w = (r1, w1)" by (cases "time_advance ts w")
  have i: "file_inv w1" using time_advance_file_inv[OF assms, of ts] ta by simp
  show ?thesis
  proof (cases r1)
    case (Inl e)
    then have "snd (change' stod vo ts value reg' w) = w1"
      using False v ta by (simp add: change'_def)
    then show ?thesis using i by simp
  next
    case (Inr u)
    then have "change' stod vo ts value reg' w = track_change stod v value reg' w1"
      using False v ta by (simp add: change'_def)
    then show ?thesis using track_change_file_inv[OF i] by simp
  qed
qed

lemma change_file_inv: "file_inv w \<Longrightarrow> file_inv (snd (change stod scope name ts value w))"
  by (simp add: change_def change'_file_inv split: sum.splits)

lemma exec_file_inv: "file_inv w \<Longrightarrow> file_inv (exec stod c w)"
  by (cases c) (simp_all add: register_var_file_inv change_file_inv set_scope_type_file_inv)

lemma run_file_inv: "file_inv w \<Longrightarrow> file_inv (run stod cs w)"
  by (induction cs arbitrary: w) (simp_all add: exec_file_inv)

section \<open>What one \<open>change\<close> call writes\<close>

lemma change_eq_change':
  "var scope name w = Inr v \<Longrightarrow>
   change stod scope name ts value w = change' stod (Some v) ts value False w"
  by (simp add: change_def)

lemma change_not_found:
  "var scope name w = Inl e \<Longrightarrow> change stod scope name ts value w = (Inl e, w)"
  by (simp add: change_def)


section \<open>The claims about the encoders\<close>

text \<open>Claim C3, as amended. For a vector-like variable, every non-empty value made of
  the characters 0, 1, x and z that is shorter than the declared width (the width plus two
  fitting in an \<open>unsigned\<close>) is encoded as \<open>b\<close>, the value right-aligned and left-padded
  with 0 to the declared width, and a space. At width 4 the value \<open>xx\<close> gives \<open>b00xx \<close>.\<close>

theorem vector_value_zero_padded:
  assumes "v_class v = VCDVectorVariable"
    and "value \<noteq> []" and "length value < v_size v" and "v_size v + 2 < 2 ^ 32"
    and "list_all is_state value"
  shows "change_record stod_g16 v value
         = Inr (''b'' @ replicate (v_size v - length value) ZERO @ value @ '' '')"
  using assms vector_padded[of "value" "v_size v"] by (simp add: change_record_def)

theorem vector_value_zero_padded_witness:
  "change_record (\<lambda>s. Inl StdInvalidArgument)
     \<lparr> v_ident = 0, v_type = wire, v_name = ''d'', v_size = 4, v_scope = ''top'',
       v_class = VCDVectorVariable \<rparr> ''xx'' = Inr ''b00xx ''"
  using vector_value_zero_padded[of
      "\<lparr> v_ident = 0, v_type = wire, v_name = ''d'', v_size = 4, v_scope = ''top'',
         v_class = VCDVectorVariable \<rparr>" "''xx''" "\<lambda>s. Inl StdInvalidArgument"]
  by (simp add: is_state_def chars replicate_numeral)

text \<open>Claim C3 as stated also covers the empty value, which is shorter than every width
  above zero: padded with zeros at width 4 it would be \<open>b0000 \<close>. The bound of the checking
  loop, \<open>val_sz - 1\<close>, wraps around for the empty value, the loop reads the space that
  follows the \<open>b\<close>, and the call throws.\<close>

theorem vector_empty_value_counterexample:
  "change_record (\<lambda>s. Inl StdInvalidArgument)
     \<lparr> v_ident = 0, v_type = wire, v_name = ''d'', v_size = 4, v_scope = ''top'',
       v_class = VCDVectorVariable \<rparr> '''' = Inl (VCDTypeException InvalidVectorValue)
   \<and> change_record (\<lambda>s. Inl StdInvalidArgument)
     \<lparr> v_ident = 0, v_type = wire, v_name = ''d'', v_size = 4, v_scope = ''top'',
       v_class = VCDVectorVariable \<rparr> '''' \<noteq> Inr ''b0000 ''"
  by (simp add: encoders chars)

text \<open>The bound on the width in the amended claim: \<open>_size + 2\<close> is computed in
  \<open>unsigned\<close>, so at width \<open>2^32 - 1\<close> the value is resized to one character and the
  shifting loop indexes past its end.\<close>

lemma vector_width_wraps:
  "vector_change_record 4294967295 ''x'' = Inl UndefinedBehaviour"
  by (simp add: encoders chars)

text \<open>Claim C4. For a scalar-like variable the empty value is to encode as \<open>x\<close>. The code
  computes the character \<open>x\<close> for it and then throws, because the size of the value is
  not 1.\<close>

theorem scalar_empty_value_throws:
  assumes "v_class v = VCDScalarVariable"
  shows "change_record stod_g16 v '''' = Inl (VCDTypeException InvalidScalarValue)"
  using assms by (simp add: change_record_def scalar_change_record_def)

theorem scalar_empty_value_throws_witness:
  "change_record (\<lambda>s. Inl StdInvalidArgument)
     \<lparr> v_ident = 0, v_type = event, v_name = ''e'', v_size = 1, v_scope = ''top'',
       v_class = VCDScalarVariable \<rparr> '''' \<noteq> Inr ''x''"
  using scalar_empty_value_throws[of
      "\<lparr> v_ident = 0, v_type = event, v_name = ''e'', v_size = 1, v_scope = ''top'',
         v_class = VCDScalarVariable \<rparr>" "\<lambda>s. Inl StdInvalidArgument"]
  by simp

text \<open>Claim C6. A vector value with a character outside 0, 1, x, z is to be refused
  wherever the character stands. The checking loop stops two characters before the end
  of the value: at width 4 the values \<open>2\<close>, \<open>ab\<close> and \<open>1Xab\<close> are accepted, while \<open>a11\<close>
  is refused.\<close>

theorem vector_last_two_unchecked:
  assumes "v_class v = VCDVectorVariable" and "v_size v = 4"
  shows "change_record stod_g16 v ''2'' = Inr ''b0002 ''
       \<and> change_record stod_g16 v ''ab'' = Inr ''b00ab ''
       \<and> change_record stod_g16 v ''1Xab'' = Inr ''b1xab ''
       \<and> change_record stod_g16 v ''a11'' = Inl (VCDTypeException InvalidVectorValue)"
  using assms by (simp add: encoders chars)

theorem vector_last_two_unchecked_witness:
  "change_record (\<lambda>s. Inl StdInvalidArgument)
     \<lparr> v_ident = 0, v_type = wire, v_name = ''d'', v_size = 4, v_scope = ''top'',
       v_class = VCDVectorVariable \<rparr> ''2'' = Inr ''b0002 ''"
  using vector_last_two_unchecked[of
      "\<lparr> v_ident = 0, v_type = wire, v_name = ''d'', v_size = 4, v_scope = ''top'',
         v_class = VCDVectorVariable \<rparr>" "\<lambda>s. Inl StdInvalidArgument"]
  by simp

lemmas writer_defs =
  VCDWriter_new_def print_def scopes_find_def vars_find_def vars_prevs_find_def
  header_lines_def kw_names_def kw_values_def replace_new_lines_def
  scope_declaration_def substr_def string_find_def strncmp_eq_def
  equal_prefix.simps close_loop.simps open_loop.simps
  scope_close_def scope_open_def close_rest_def write_header_def
  dump_values_def dump_off_def dump_off_line_def finalize_registration_def
  time_advance_def dump_change_def track_change_def change'_def search_key_def var_def change_def
  scopes_insert_def find_or_insert_scope_def sz_def new_var_def make_var_def
  vars_insert_def scopes_push_var_def register_var_def set_scope_type_def
  VarPtrEqual_def Let_def

section \<open>The claims about \<open>change\<close>\<close>




text \<open>Claim C5, as amended. A \<open>change\<close> call that fails with a \<open>VCDTypeException\<close> at a
  timestamp that is not above the current one leaves the writer as it was: nothing is
  written and the timestamp is unchanged.\<close>

theorem type_error_at_watermark_changes_nothing:
  assumes "fst (change stod_g16 scope name timestamp' value w) = Inl (VCDTypeException e)"
    and "timestamp' \<le> timestamp w"
  shows "snd (change stod_g16 scope name timestamp' value w) = w"
proof (cases "var scope name w")
  case (Inl x)
  then show ?thesis by (simp add: change_not_found)
next
  case (Inr v)
  have c: "change stod_g16 scope name timestamp' value w
        = change' stod_g16 (Some v) timestamp' value False w"
    using Inr by (rule change_eq_change')
  have eq: "timestamp' = timestamp w" and nc: "\<not> closed w"
    using assms c by (auto simp: change'_def split: if_splits)
  have "change' stod_g16 (Some v) timestamp' value False w = track_change stod_g16 v value False w"
    using eq nc by (simp add: change'_same_time)
  with assms(1) c have t: "fst (track_change stod_g16 v value False w) = Inl (VCDTypeException e)"
    by simp
  then have "snd (track_change stod_g16 v value False w) = w"
    by (auto simp: track_change_def dump_change_def split: sum.splits option.splits if_splits)
  then show ?thesis using c \<open>change' stod_g16 (Some v) timestamp' value False w = _\<close> by simp
qed

theorem type_error_at_watermark_changes_nothing_witness:
  "fst (change no_stod ''top'' ''clk'' 0 ''q''
          (run no_stod [Register_var ''top'' ''clk'' integer 1 ''0'' True] (VCDWriter_new hdr0 0)))
     = Inl (VCDTypeException InvalidScalarValue)
   \<and> snd (change no_stod ''top'' ''clk'' 0 ''q''
          (run no_stod [Register_var ''top'' ''clk'' integer 1 ''0'' True] (VCDWriter_new hdr0 0)))
     = run no_stod [Register_var ''top'' ''clk'' integer 1 ''0'' True] (VCDWriter_new hdr0 0)"
proof -
  have a: "fst (change no_stod ''top'' ''clk'' 0 ''q''
          (run no_stod [Register_var ''top'' ''clk'' integer 1 ''0'' True] (VCDWriter_new hdr0 0)))
     = Inl (VCDTypeException InvalidScalarValue)"
    by (simp add: writer_defs encoders chars)
  have b: "0 \<le> timestamp (run no_stod [Register_var ''top'' ''clk'' integer 1 ''0'' True]
                            (VCDWriter_new hdr0 0))"
    by simp
  show ?thesis using a type_error_at_watermark_changes_nothing[OF a b] by simp
qed

text \<open>Claim C5 as stated fails when the timestamp is above the current one: the time
  block of \<open>_change\<close> runs before the value is encoded. Here it finalizes the registration,
  writes the declarations, the initial dump and the time marker, and sets the timestamp
  to 5; then the value \<open>q\<close> is refused.\<close>

theorem type_error_after_time_advance_counterexample:
  "fst (change no_stod ''top'' ''clk'' 5 ''q''
          (run no_stod [Register_var ''top'' ''clk'' integer 1 ''0'' True] (VCDWriter_new hdr0 0)))
     = Inl (VCDTypeException InvalidScalarValue)
   \<and> ofile (snd (change no_stod ''top'' ''clk'' 5 ''q''
          (run no_stod [Register_var ''top'' ''clk'' integer 1 ''0'' True] (VCDWriter_new hdr0 0))))
     = [Print_scope sc_module ''top'',
        Print_var \<lparr>v_ident = 0, v_type = integer, v_name = ''clk'', v_size = 1, v_scope = ''top'',
                   v_class = VCDScalarVariable\<rparr>,
        Print_upscope, Print_enddefinitions, Print_time 0, Print_keyword ''$dumpvars'',
        Print_value ''0'' 0, Print_end, Print_time 5]
   \<and> timestamp (snd (change no_stod ''top'' ''clk'' 5 ''q''
          (run no_stod [Register_var ''top'' ''clk'' integer 1 ''0'' True] (VCDWriter_new hdr0 0)))) = 5
   \<and> ofile (run no_stod [Register_var ''top'' ''clk'' integer 1 ''0'' True] (VCDWriter_new hdr0 0)) = []
   \<and> timestamp (run no_stod [Register_var ''top'' ''clk'' integer 1 ''0'' True] (VCDWriter_new hdr0 0)) = 0"
  by (simp add: writer_defs encoders chars)

section \<open>The claims about the life cycle\<close>

lemma run_writer_inv:
  "list_all nul_free_call calls \<Longrightarrow> writer_inv ts0 (run stod (calls) (VCDWriter_new hdr ts0))"
  by (simp add: run_inv writer_inv_new)

text \<open>What one \<open>_change\<close> appends: lines that are no value-change records, then at most the
  one record, and that only with the registration finished.\<close>

lemma change'_output:
  "\<exists>d c. ofile (snd (change' stod vo ts value reg' w)) = ofile w @ d @ c \<and> no_change d
     \<and> (c = [] \<or> (\<exists>cv i. c = [Print_change cv i])
                   \<and> \<not> registering (snd (change' stod vo ts value reg' w)))"
proof (cases "ts < timestamp w \<or> closed w \<or> vo = None")
  case True
  then have "snd (change' stod vo ts value reg' w) = w"
    by (auto simp: change'_def split: option.splits)
  then show ?thesis by (intro exI[of _ "[]"]) simp
next
  case False
  then obtain v where v: "vo = Some v" by auto
  obtain r1 w1 where ta: "time_advance ts w = (r1, w1)" by (cases "time_advance ts w")
  from time_advance_frame[of ts w] obtain d1 h r f t where
    "snd (time_advance ts w)
       = w\<lparr>ofile := ofile w @ d1, header := h, registering := r, fin_calls := f, timestamp := t\<rparr>"
    "no_change d1" by blast
  with ta have w1: "ofile w1 = ofile w @ d1" "no_change d1" by simp_all
  show ?thesis
  proof (cases r1)
    case (Inl e)
    then have "snd (change' stod vo ts value reg' w) = w1"
      using False v ta by (simp add: change'_def)
    then show ?thesis using w1 by (intro exI[of _ d1] exI[of _ "[]"]) simp
  next
    case (Inr u)
    from track_change_frame[of stod v "value" reg' w1] obtain ps d2 where
      tc: "snd (track_change stod v value reg' w1) = w1\<lparr>vars_prevs := ps, ofile := ofile w1 @ d2\<rparr>"
      "d2 = [] \<or> (\<exists>cv. d2 = [Print_change cv (v_ident v)])"
      "d2 \<noteq> [] \<longleftrightarrow> fst (track_change stod v value reg' w1) = Inr True \<and> dumping w1 \<and> \<not> registering w1"
      by blast
    have c: "change' stod vo ts value reg' w = track_change stod v value reg' w1"
      using False v ta Inr by (simp add: change'_def)
    have "d2 = [] \<or> (\<exists>cv i. d2 = [Print_change cv i]) \<and> \<not> registering (snd (change' stod vo ts value reg' w))"
      using tc c by auto
    then show ?thesis using c tc(1) w1 by (intro exI[of _ d1] exI[of _ d2]) simp
  qed
qed

text \<open>Claim C2. After any sequence of \<open>register_var\<close>, \<open>change\<close> and \<open>set_scope_type\<close>
  calls, whatever the scope names:
  \<^item> while the registration is open the file holds no value-change record, and once it is
    finished the file holds the end-of-definitions line and no value-change record before
    it;
  \<^item> a further \<open>change\<close> call appends lines that are no value-change records, followed by
    at most one record, which it writes only with the registration finished.

  When moreover no scope name contains a NUL byte, \<open>_finalize_registration\<close> has been
  called at most once, namely not at all while the timestamp is the initial one and once
  when it is above it, and nothing at all has been written while the registration is
  open.\<close>

theorem finalize_once_no_early_change:
  assumes "w = run stod_g16 calls (VCDWriter_new hdr ts0)"
  shows "(if registering w then no_change (ofile w) else definitions_first (ofile w))
       \<and> (\<exists>d c. ofile (snd (change stod_g16 scope name timestamp' value w)) = ofile w @ d @ c
             \<and> no_change d
             \<and> (c = [] \<or> (\<exists>cv i. c = [Print_change cv i])
                  \<and> \<not> registering (snd (change stod_g16 scope name timestamp' value w))))
       \<and> (list_all nul_free_call calls \<longrightarrow>
            fin_calls w \<le> 1
          \<and> fin_calls w = (if ts0 < timestamp w then 1 else 0)
          \<and> registering w = (timestamp w = ts0)
          \<and> (registering w \<longrightarrow> ofile w = []))"
proof -
  have f: "file_inv w" using assms by (simp add: run_file_inv file_inv_new)
  then have a: "if registering w then no_change (ofile w) else definitions_first (ofile w)"
    by (simp add: file_inv_def)
  have o: "\<exists>d c. ofile (snd (change stod_g16 scope name timestamp' value w)) = ofile w @ d @ c
             \<and> no_change d
             \<and> (c = [] \<or> (\<exists>cv i. c = [Print_change cv i])
                  \<and> \<not> registering (snd (change stod_g16 scope name timestamp' value w)))"
  proof (cases "var scope name w")
    case (Inl e)
    then show ?thesis by (intro exI[of _ "[]"]) (simp add: change_not_found)
  next
    case (Inr v)
    then show ?thesis
      using change'_output[of stod_g16 "Some v" timestamp' "value" False w]
      by (simp add: change_eq_change')
  qed
  have n: "fin_calls w \<le> 1
          \<and> fin_calls w = (if ts0 < timestamp w then 1 else 0)
          \<and> registering w = (timestamp w = ts0)
          \<and> (registering w \<longrightarrow> ofile w = [])"
    if "list_all nul_free_call calls"
  proof -
    have i: "writer_inv ts0 w" using assms that by (simp add: run_writer_inv)
    show ?thesis
    proof (cases "registering w")
      case True
      then show ?thesis using i by (simp add: writer_inv_def)
    next
      case False
      then show ?thesis using i by (simp add: writer_inv_def)
    qed
  qed
  show ?thesis using a o n by blast
qed

theorem finalize_once_no_early_change_witness:
  "fin_calls (run no_stod calls2 (VCDWriter_new hdr0 0)) = 1
   \<and> \<not> registering (run no_stod calls2 (VCDWriter_new hdr0 0))
   \<and> timestamp (run no_stod calls2 (VCDWriter_new hdr0 0)) = 7
   \<and> definitions_first (ofile (run no_stod calls2 (VCDWriter_new hdr0 0)))"
proof -
  define w where "w = run no_stod calls2 (VCDWriter_new hdr0 0)"
  have a: "list_all nul_free_call calls2" by (simp add: nul_free_call_def nul_free_def)
  have t: "timestamp w = 7"
    unfolding w_def by (simp add: writer_defs encoders chars)
  from finalize_once_no_early_change[OF w_def, of "''top''" "''clk''" 7 "''0''"] a t
  have "fin_calls w = 1 \<and> \<not> registering w \<and> timestamp w = 7 \<and> definitions_first (ofile w)"
    by (simp split: if_splits)
  then show ?thesis unfolding w_def .
qed

text \<open>The first half of claim C2 fails for scope names with a NUL byte. The scopes are
  compared as C strings (\<open>strncmp\<close> on \<open>c_str()\<close>), positions found in the previous scope are
  then used in the current one, and \<open>substr\<close> throws \<open>std::out_of_range\<close> in the middle of
  \<open>_write_header\<close>. The exception leaves \<open>_registering\<close> set, with part of the declarations
  written, and the next \<open>change\<close> with a later timestamp calls \<open>_finalize_registration\<close>
  again.\<close>

theorem finalize_twice_counterexample:
  "fin_calls (run no_stod (nul_calls @ [Change nul_scope2 ''v'' 1 ''1'', Change nul_scope2 ''v'' 2 ''1''])
                (VCDWriter_new hdr0 0)) = 2
   \<and> registering (run no_stod (nul_calls @ [Change nul_scope2 ''v'' 1 ''1'', Change nul_scope2 ''v'' 2 ''1''])
                (VCDWriter_new hdr0 0))
   \<and> ofile (run no_stod (nul_calls @ [Change nul_scope2 ''v'' 1 ''1'', Change nul_scope2 ''v'' 2 ''1''])
                (VCDWriter_new hdr0 0)) \<noteq> []"
  by (simp add: writer_defs encoders chars)

text \<open>A \<open>change\<close> to the tracked encoding changes nothing after the time block of
  \<open>_change\<close>, and returns false when that block returns.\<close>

lemma unchanged_change':
  assumes "vars_prevs_find (vars_prevs w) v = Some it"
    and "change_record stod v value = Inr (snd it)"
  shows "snd (change' stod (Some v) ts value False w) = w
       \<or> snd (change' stod (Some v) ts value False w) = snd (time_advance ts w)"
proof (cases "ts < timestamp w \<or> closed w")
  case True
  then show ?thesis by (auto simp: change'_def)
next
  case False
  obtain r1 w1 where ta: "time_advance ts w = (r1, w1)" by (cases "time_advance ts w")
  from time_advance_frame[of ts w] ta have vp: "vars_prevs w1 = vars_prevs w" by auto
  show ?thesis
  proof (cases r1)
    case (Inl e)
    then show ?thesis using False ta by (simp add: change'_def)
  next
    case (Inr u)
    have "track_change stod v value False w1 = (Inr False, w1)"
      using assms vp by (simp add: track_change_def)
    then show ?thesis using False ta Inr by (simp add: change'_def)
  qed
qed

lemma unchanged_change'_returns:
  assumes "vars_prevs_find (vars_prevs w) v = Some it"
    and "change_record stod v value = Inr (snd it)"
    and "\<not> closed w" "timestamp w \<le> ts"
    and "fst (time_advance ts w) = Inr ()"
  shows "fst (change' stod (Some v) ts value False w) = Inr False"
proof -
  obtain r1 w1 where ta: "time_advance ts w = (r1, w1)" by (cases "time_advance ts w")
  from time_advance_frame[of ts w] ta have vp: "vars_prevs w1 = vars_prevs w" by auto
  have "track_change stod v value False w1 = (Inr False, w1)"
    using assms(1,2) vp by (simp add: track_change_def)
  then show ?thesis using assms(3,4,5) ta by (simp add: change'_def)
qed

text \<open>Claim C7. In any state of the writer, a \<open>change\<close> of a registered variable to a value
  whose encoding is the tracked one leaves the tracker as it is and writes no value-change
  record. After any sequence of calls, at a timestamp that is not below the current one,
  it returns false without an exception whenever the call has no registration to
  finalize (the registration is finished, or the timestamp is the current one), and also
  when it has, provided that no scope name contains a NUL byte.\<close>

theorem unchanged_value_is_silent:
  assumes "var scope name w = Inr v"
    and "vars_prevs_find (vars_prevs w) v = Some it"
    and "change_record stod_g16 v value = Inr (snd it)"
  shows "vars_prevs (snd (change stod_g16 scope name timestamp' value w)) = vars_prevs w
       \<and> (\<exists>d. ofile (snd (change stod_g16 scope name timestamp' value w)) = ofile w @ d
              \<and> no_change d)
       \<and> (w = run stod_g16 calls (VCDWriter_new hdr ts0) \<and> timestamp w \<le> timestamp'
            \<and> (list_all nul_free_call calls \<or> \<not> registering w \<or> timestamp' = timestamp w)
          \<longrightarrow> fst (change stod_g16 scope name timestamp' value w) = Inr False)"
proof -
  let ?c = "change stod_g16 scope name timestamp' value w"
  have c: "?c = change' stod_g16 (Some v) timestamp' value False w"
    using assms(1) by (simp add: change_eq_change')
  from time_advance_frame[of timestamp' w] obtain d h r f t where
    fr: "snd (time_advance timestamp' w)
       = w\<lparr>ofile := ofile w @ d, header := h, registering := r, fin_calls := f, timestamp := t\<rparr>"
    "no_change d" by blast
  from unchanged_change'[OF assms(2,3), of timestamp']
  have s: "snd ?c = w \<or> snd ?c = snd (time_advance timestamp' w)" by (simp add: c)
  have one: "vars_prevs (snd ?c) = vars_prevs w" using s fr(1) by auto
  have two: "\<exists>d. ofile (snd ?c) = ofile w @ d \<and> no_change d"
  proof (cases "snd ?c = w")
    case True
    then show ?thesis by (intro exI[of _ "[]"]) simp
  next
    case False
    then have "ofile (snd ?c) = ofile w @ d" using s fr(1) by simp
    then show ?thesis using fr(2) by blast
  qed
  have three: "fst ?c = Inr False"
    if r: "w = run stod_g16 calls (VCDWriter_new hdr ts0)" and t: "timestamp w \<le> timestamp'"
      and k: "list_all nul_free_call calls \<or> \<not> registering w \<or> timestamp' = timestamp w"
  proof -
    have "file_inv w" using r by (simp add: run_file_inv file_inv_new)
    then have nc: "\<not> closed w" by (simp add: file_inv_def)
    have "fst (time_advance timestamp' w) = Inr ()"
    proof (cases "list_all nul_free_call calls")
      case True
      then have "writer_inv ts0 w" using r by (simp add: run_writer_inv)
      from time_advance_inv[OF this, of timestamp'] show ?thesis by (metis fst_conv)
    next
      case False
      with k have "\<not> registering w \<or> timestamp' = timestamp w" by simp
      then show ?thesis
      proof
        assume "timestamp' = timestamp w"
        then show ?thesis by (simp add: time_advance_noop)
      next
        assume nr: "\<not> registering w"
        show ?thesis
        proof (cases "timestamp w < timestamp'")
          case True
          then show ?thesis using nr by (simp add: time_advance_finalized)
        next
          case False
          then show ?thesis by (simp add: time_advance_noop)
        qed
      qed
    qed
    from unchanged_change'_returns[OF assms(2,3) nc t this] show ?thesis by (simp add: c)
  qed
  show ?thesis using one two three by blast
qed

theorem unchanged_value_is_silent_witness:
  "fst (change no_stod ''top'' ''clk'' 9 ''0'' (run no_stod calls2 (VCDWriter_new hdr0 0))) = Inr False
   \<and> ofile (snd (change no_stod ''top'' ''clk'' 9 ''0'' (run no_stod calls2 (VCDWriter_new hdr0 0))))
     = ofile (run no_stod calls2 (VCDWriter_new hdr0 0)) @ [Print_time 9]"
proof -
  let ?v = "\<lparr>v_ident = 0, v_type = wire, v_name = ''clk'', v_size = 1, v_scope = ''top'',
             v_class = VCDVectorVariable\<rparr>"
  have a: "list_all nul_free_call calls2" by (simp add: nul_free_call_def nul_free_def)
  have b: "var ''top'' ''clk'' (run no_stod calls2 (VCDWriter_new hdr0 0)) = Inr ?v"
    by (simp add: writer_defs encoders chars)
  have c: "vars_prevs_find (vars_prevs (run no_stod calls2 (VCDWriter_new hdr0 0))) ?v
           = Some (?v, ''b0 '')"
    by (simp add: writer_defs encoders chars)
  have d: "change_record no_stod ?v ''0'' = Inr (snd (?v, ''b0 ''))"
    by (simp add: encoders chars)
  have e: "timestamp (run no_stod calls2 (VCDWriter_new hdr0 0)) \<le> 9"
    by (simp add: writer_defs encoders chars)
  have f: "ofile (snd (change no_stod ''top'' ''clk'' 9 ''0'' (run no_stod calls2 (VCDWriter_new hdr0 0))))
     = ofile (run no_stod calls2 (VCDWriter_new hdr0 0)) @ [Print_time 9]"
    by (simp add: writer_defs encoders chars)
  from unchanged_value_is_silent[OF b c d, of 9 calls2 hdr0 0] a e
  have "fst (change no_stod ''top'' ''clk'' 9 ''0'' (run no_stod calls2 (VCDWriter_new hdr0 0))) = Inr False"
    by blast
  then show ?thesis using f by simp
qed

text \<open>With scope names that hold a NUL byte claim C7 fails: the unchanged value comes with
  a later timestamp, the call finalizes the registration, and \<open>_write_header\<close> throws
  \<open>std::out_of_range\<close>.\<close>

theorem unchanged_value_throws_counterexample:
  "var nul_scope2 ''v'' (run no_stod nul_calls (VCDWriter_new hdr0 0))
     = Inr \<lparr>v_ident = 1, v_type = wire, v_name = ''v'', v_size = 1, v_scope = nul_scope2,
             v_class = VCDVectorVariable\<rparr>
   \<and> vars_prevs_find (vars_prevs (run no_stod nul_calls (VCDWriter_new hdr0 0)))
        \<lparr>v_ident = 1, v_type = wire, v_name = ''v'', v_size = 1, v_scope = nul_scope2,
             v_class = VCDVectorVariable\<rparr>
     = Some (\<lparr>v_ident = 1, v_type = wire, v_name = ''v'', v_size = 1, v_scope = nul_scope2,
             v_class = VCDVectorVariable\<rparr>, ''b0 '')
   \<and> change_record no_stod \<lparr>v_ident = 1, v_type = wire, v_name = ''v'', v_size = 1,
             v_scope = nul_scope2, v_class = VCDVectorVariable\<rparr> ''0'' = Inr ''b0 ''
   \<and> timestamp (run no_stod nul_calls (VCDWriter_new hdr0 0)) = 0
   \<and> fst (change no_stod nul_scope2 ''v'' 1 ''0'' (run no_stod nul_calls (VCDWriter_new hdr0 0)))
     = Inl StdOutOfRange"
  by (simp add: writer_defs encoders chars)

section \<open>The claim about the declaration block\<close>

lemma three_scopes_sorted:
  assumes "sorted_wrt (<) (ns :: string list)" and "set ns = {''a'', ''a.b'', ''a.c''}"
  shows "ns = [''a'', ''a.b'', ''a.c'']"
proof -
  have "sorted ns" "distinct ns" using assms(1) by (simp_all add: strict_sorted_iff)
  moreover have "sorted [''a'', ''a.b'', ''a.c'']" "distinct [''a'', ''a.b'', ''a.c'']" by simp_all
  moreover have "set ns = set [''a'', ''a.b'', ''a.c'']" using assms(2) by simp
  ultimately show ?thesis by (rule sorted_distinct_set_unique)
qed

lemma write_header_three_scopes:
  assumes "header w = Some hdr" and "scope_sep w = ''.''"
    and "scopes w = [\<lparr>s_name = ''a'', s_type = ta, s_vars = va\<rparr>,
                     \<lparr>s_name = ''a.b'', s_type = tb, s_vars = vb\<rparr>,
                     \<lparr>s_name = ''a.c'', s_type = tc, s_vars = vc\<rparr>]"
  shows "write_header w =
     (Inr (), w\<lparr>ofile := ofile w @ header_lines hdr
                   @ [Print_scope ta ''a''] @ map Print_var va
                   @ [Print_scope tb ''b''] @ map Print_var vb @ [Print_upscope]
                   @ [Print_scope tc ''c''] @ map Print_var vc @ [Print_upscope]
                   @ [Print_upscope, Print_enddefinitions],
                 header := None\<rparr>)"
  using assms
  by (simp add: write_header_def scope_close_def scope_open_def close_rest_def
        scope_declaration_def substr_def string_find_def strncmp_eq_def c_str_def
        equal_prefix.simps close_loop.simps open_loop.simps Let_def)

text \<open>Claim C1. Take any sequence of calls that leaves the registration open with exactly
  the scopes \<open>a\<close>, \<open>a.b\<close> and \<open>a.c\<close>, registered in whatever order. The set holds them in
  this order, and \<open>_write_header\<close> returns, having appended to the file the header lines and
  then: the opening of \<open>a\<close> and the declarations of its variables; the opening of \<open>b\<close>, the
  declarations of the variables of \<open>a.b\<close> and one closing; the opening of \<open>c\<close>, the
  declarations of the variables of \<open>a.c\<close> and one closing; the closing of \<open>a\<close>; and the
  end-of-definitions line.\<close>

theorem scopes_a_ab_ac_framing:
  assumes "w = run stod_g16 calls (VCDWriter_new hdr ts0)"
    and "registering w"
    and "set (map s_name (scopes w)) = {''a'', ''a.b'', ''a.c''}"
  shows "\<exists>ta va tb vb tc vc.
           scopes w = [\<lparr>s_name = ''a'', s_type = ta, s_vars = va\<rparr>,
                       \<lparr>s_name = ''a.b'', s_type = tb, s_vars = vb\<rparr>,
                       \<lparr>s_name = ''a.c'', s_type = tc, s_vars = vc\<rparr>]
         \<and> write_header w =
             (Inr (), w\<lparr>ofile := ofile w @ header_lines hdr
                   @ [Print_scope ta ''a''] @ map Print_var va
                   @ [Print_scope tb ''b''] @ map Print_var vb @ [Print_upscope]
                   @ [Print_scope tc ''c''] @ map Print_var vc @ [Print_upscope]
                   @ [Print_upscope, Print_enddefinitions],
                 header := None\<rparr>)"
proof -
  have i: "basic_inv hdr w" using assms(1) by (simp add: run_basic_inv basic_inv_new)
  then have h: "header w = Some hdr" and sep: "scope_sep w = ''.''"
    and srt: "sorted_wrt (<) (map s_name (scopes w))"
    using assms(2) by (simp_all add: basic_inv_def)
  have names: "map s_name (scopes w) = [''a'', ''a.b'', ''a.c'']"
    using srt assms(3) by (rule three_scopes_sorted)
  then obtain s1 s2 s3 where ss: "scopes w = [s1, s2, s3]"
    and n: "s_name s1 = ''a''" "s_name s2 = ''a.b''" "s_name s3 = ''a.c''"
    by (auto simp: map_eq_Cons_conv)
  have sc: "scopes w = [\<lparr>s_name = ''a'', s_type = s_type s1, s_vars = s_vars s1\<rparr>,
                      \<lparr>s_name = ''a.b'', s_type = s_type s2, s_vars = s_vars s2\<rparr>,
                      \<lparr>s_name = ''a.c'', s_type = s_type s3, s_vars = s_vars s3\<rparr>]"
    using ss n by simp
  from write_header_three_scopes[OF h sep sc] sc show ?thesis by blast
qed

theorem scopes_a_ab_ac_framing_witness:
  "ofile (snd (write_header (run no_stod calls1 (VCDWriter_new hdr0 0)))) =
     [Print_scope sc_module ''a'',
      Print_var \<lparr>v_ident = 1, v_type = reg, v_name = ''u'', v_size = 2, v_scope = ''a'',
                 v_class = VCDVectorVariable\<rparr>,
      Print_var \<lparr>v_ident = 3, v_type = integer, v_name = ''w'', v_size = 1, v_scope = ''a'',
                 v_class = VCDScalarVariable\<rparr>,
      Print_scope sc_module ''b'',
      Print_var \<lparr>v_ident = 2, v_type = wire, v_name = ''t'', v_size = 4, v_scope = ''a.b'',
                 v_class = VCDVectorVariable\<rparr>,
      Print_upscope,
      Print_scope sc_module ''c'',
      Print_var \<lparr>v_ident = 0, v_type = wire, v_name = ''v'', v_size = 1, v_scope = ''a.c'',
                 v_class = VCDVectorVariable\<rparr>,
      Print_upscope, Print_upscope, Print_enddefinitions]"
proof -
  define w where "w = run no_stod calls1 (VCDWriter_new hdr0 0)"
  have r: "registering w" unfolding w_def by (simp add: writer_defs encoders chars)
  have sc: "scopes w =
     [\<lparr>s_name = ''a'', s_type = sc_module, s_vars =
         [\<lparr>v_ident = 1, v_type = reg, v_name = ''u'', v_size = 2, v_scope = ''a'',
                 v_class = VCDVectorVariable\<rparr>,
          \<lparr>v_ident = 3, v_type = integer, v_name = ''w'', v_size = 1, v_scope = ''a'',
                 v_class = VCDScalarVariable\<rparr>]\<rparr>,
      \<lparr>s_name = ''a.b'', s_type = sc_module, s_vars =
         [\<lparr>v_ident = 2, v_type = wire, v_name = ''t'', v_size = 4, v_scope = ''a.b'',
                 v_class = VCDVectorVariable\<rparr>]\<rparr>,
      \<lparr>s_name = ''a.c'', s_type = sc_module, s_vars =
         [\<lparr>v_ident = 0, v_type = wire, v_name = ''v'', v_size = 1, v_scope = ''a.c'',
                 v_class = VCDVectorVariable\<rparr>]\<rparr>]"
    unfolding w_def by (simp add: writer_defs encoders chars)
  have o: "ofile w = []" unfolding w_def by (simp add: writer_defs encoders chars)
  have s: "set (map s_name (scopes w)) = {''a'', ''a.b'', ''a.c''}" by (simp add: sc)
  from scopes_a_ab_ac_framing[OF w_def r s]
  have "ofile (snd (write_header w)) =
     [Print_scope sc_module ''a'',
      Print_var \<lparr>v_ident = 1, v_type = reg, v_name = ''u'', v_size = 2, v_scope = ''a'',
                 v_class = VCDVectorVariable\<rparr>,
      Print_var \<lparr>v_ident = 3, v_type = integer, v_name = ''w'', v_size = 1, v_scope = ''a'',
                 v_class = VCDScalarVariable\<rparr>,
      Print_scope sc_module ''b'',
      Print_var \<lparr>v_ident = 2, v_type = wire, v_name = ''t'', v_size = 4, v_scope = ''a.b'',
                 v_class = VCDVectorVariable\<rparr>,
      Print_upscope,
      Print_scope sc_module ''c'',
      Print_var \<lparr>v_ident = 0, v_type = wire, v_name = ''v'', v_size = 1, v_scope = ''a.c'',
                 v_class = VCDVectorVariable\<rparr>,
      Print_upscope, Print_upscope, Print_enddefinitions]"
    by (auto simp: sc o header_lines_def kw_names_def kw_values_def)
  then show ?thesis unfolding w_def .
qed

section \<open>The tracker\<close>

lemma VarPtrEqual_refl [simp]: "VarPtrEqual v v"
  by (simp add: VarPtrEqual_def)

lemma vars_prevs_assign_keys: "map fst (vars_prevs_assign ps v cv) = map fst ps"
  by (induction ps) simp_all



lemma vars_prevs_find_key:
  "vars_prevs_find ps v = Some it \<Longrightarrow> it \<in> set ps \<and> VarPtrEqual (fst it) v"
  by (auto simp: vars_prevs_find_def find_Some_iff)


text \<open>The keys of the tracker: \<open>_change\<close> adds at most the variable it is called with, and
  only when it is called by \<open>register_var\<close>.\<close>

lemma track_change_keys:
  assumes "p \<in> set (vars_prevs (snd (track_change stod v value reg' w)))"
  shows "fst p \<in> fst ` set (vars_prevs w) \<or> (reg' \<and> fst p = v)"
proof -
  have a: "fst ` set (vars_prevs_assign ps v cv) = fst ` set ps" for ps cv
    using vars_prevs_assign_keys[of ps v cv] by (metis set_map)
  show ?thesis
    using assms a
    by (auto simp: track_change_def dump_change_def print_def
             split: sum.splits option.splits if_splits)
qed

lemma change'_keys:
  assumes "p \<in> set (vars_prevs (snd (change' stod vo ts value reg' w)))"
  shows "fst p \<in> fst ` set (vars_prevs w) \<or> (reg' \<and> vo = Some (fst p))"
proof (cases "ts < timestamp w \<or> closed w \<or> vo = None")
  case True
  then have "snd (change' stod vo ts value reg' w) = w"
    by (auto simp: change'_def split: option.splits)
  then show ?thesis using assms by auto
next
  case False
  then obtain v where v: "vo = Some v" by auto
  obtain r1 w1 where ta: "time_advance ts w = (r1, w1)" by (cases "time_advance ts w")
  from time_advance_frame[of ts w] obtain d1 h r f t where
    "snd (time_advance ts w)
       = w\<lparr>ofile := ofile w @ d1, header := h, registering := r, fin_calls := f, timestamp := t\<rparr>"
    by blast
  with ta have w1: "vars_prevs w1 = vars_prevs w" by simp
  show ?thesis
  proof (cases r1)
    case (Inl e)
    then have "snd (change' stod vo ts value reg' w) = w1"
      using False v ta by (simp add: change'_def)
    then show ?thesis using assms w1 by auto
  next
    case (Inr u)
    then have "change' stod vo ts value reg' w = track_change stod v value reg' w1"
      using False v ta by (simp add: change'_def)
    then show ?thesis using assms track_change_keys[of p stod v "value" reg' w1] w1 v by auto
  qed
qed

lemma make_var_key:
  "make_var name t sz' scope n init = Inr (pvar, init_value) \<Longrightarrow>
   v_name pvar = name \<and> v_scope pvar = scope \<and> v_type pvar = t"
  by (cases t) (auto simp: make_var_def new_var_def Let_def split: if_splits)

section \<open>\<open>register_var\<close> step by step\<close>

lemma register_var_unfold:
  assumes "\<not> closed w" "registering w" "scope \<noteq> []" "name \<noteq> []"
  shows "\<exists>ss. register_var stod scope name t sz' init dup w =
       (case make_var name t sz' scope (next_var_id w) init of
          Inl e \<Rightarrow> (Inl e, w\<lparr>scopes := ss\<rparr>)
        | Inr (pvar, init_value) \<Rightarrow>
            (case (if t \<noteq> event then track_change stod pvar init_value True (w\<lparr>scopes := ss\<rparr>)
                   else (Inr False, w\<lparr>scopes := ss\<rparr>)) of
               (Inl e, w2) \<Rightarrow> (Inl e, w2)
             | (Inr b, w2) \<Rightarrow>
                 if dup \<and> vars_find (vars w2) pvar \<noteq> None
                 then (Inl (VCDTypeException DuplicateVar), w2)
                 else (Inr pvar,
                       w2\<lparr>vars := vars_insert (vars w2) pvar,
                          scopes := scopes_push_var (scopes w2) scope pvar,
                          next_var_id := (next_var_id w2 + 1) mod 2 ^ 32\<rparr>)))"
proof -
  from find_or_insert_scope_result[of scope w] obtain ss where
    fo: "find_or_insert_scope scope w = (Inr (), w\<lparr>scopes := ss\<rparr>)" by blast
  define w1 where "w1 = w\<lparr>scopes := ss\<rparr>"
  have c: "change' stod (Some pvar) (timestamp w1) init_value True w1
         = track_change stod pvar init_value True w1" for pvar init_value
    using assms(1) by (intro change'_same_time) (simp add: w1_def)
  have n: "next_var_id w1 = next_var_id w" by (simp add: w1_def)
  have "register_var stod scope name t sz' init dup w =
       (case make_var name t sz' scope (next_var_id w) init of
          Inl e \<Rightarrow> (Inl e, w1)
        | Inr (pvar, init_value) \<Rightarrow>
            (case (if t \<noteq> event then track_change stod pvar init_value True w1
                   else (Inr False, w1)) of
               (Inl e, w2) \<Rightarrow> (Inl e, w2)
             | (Inr b, w2) \<Rightarrow>
                 if dup \<and> vars_find (vars w2) pvar \<noteq> None
                 then (Inl (VCDTypeException DuplicateVar), w2)
                 else (Inr pvar,
                       w2\<lparr>vars := vars_insert (vars w2) pvar,
                          scopes := scopes_push_var (scopes w2) scope pvar,
                          next_var_id := (next_var_id w2 + 1) mod 2 ^ 32\<rparr>)))"
    using assms fo
    by (cases "make_var name t sz' scope (next_var_id w) init")
       (auto simp: register_var_def w1_def[symmetric] c n)
  then show ?thesis unfolding w1_def by blast
qed

lemma register_var_fails_early:
  "closed w \<or> \<not> registering w \<or> scope = [] \<or> name = [] \<Longrightarrow>
   \<exists>e. register_var stod scope name t sz' init dup w = (Inl e, w)"
  by (auto simp: register_var_def)

text \<open>The keys that \<open>register_var\<close> adds to the tracker belong to the scope and the name
  of the call, and the type of the call is not \<open>event\<close>.\<close>

lemma register_var_keys:
  assumes "p \<in> set (vars_prevs (snd (register_var stod scope name t sz' init dup w)))"
  shows "fst p \<in> fst ` set (vars_prevs w)
       \<or> (t \<noteq> event \<and> v_scope (fst p) = scope \<and> v_name (fst p) = name)"
proof (cases "closed w \<or> \<not> registering w \<or> scope = [] \<or> name = []")
  case True
  from register_var_fails_early[OF this, of stod t sz' init dup] assms show ?thesis by auto
next
  case False
  from register_var_unfold[of w scope name stod t sz' init dup] False obtain ss where
    u: "register_var stod scope name t sz' init dup w =
       (case make_var name t sz' scope (next_var_id w) init of
          Inl e \<Rightarrow> (Inl e, w\<lparr>scopes := ss\<rparr>)
        | Inr (pvar, init_value) \<Rightarrow>
            (case (if t \<noteq> event then track_change stod pvar init_value True (w\<lparr>scopes := ss\<rparr>)
                   else (Inr False, w\<lparr>scopes := ss\<rparr>)) of
               (Inl e, w2) \<Rightarrow> (Inl e, w2)
             | (Inr b, w2) \<Rightarrow>
                 if dup \<and> vars_find (vars w2) pvar \<noteq> None
                 then (Inl (VCDTypeException DuplicateVar), w2)
                 else (Inr pvar,
                       w2\<lparr>vars := vars_insert (vars w2) pvar,
                          scopes := scopes_push_var (scopes w2) scope pvar,
                          next_var_id := (next_var_id w2 + 1) mod 2 ^ 32\<rparr>)))"
    by auto
  show ?thesis
  proof (cases "make_var name t sz' scope (next_var_id w) init")
    case (Inl e)
    then show ?thesis using u assms by simp
  next
    case (Inr pi)
    obtain pvar init_value where pi: "pi = (pvar, init_value)" by (cases pi)
    have key: "v_name pvar = name" "v_scope pvar = scope"
      using make_var_key[of name t sz' scope "next_var_id w" init pvar init_value] Inr pi by simp_all
    define c where "c = (if t \<noteq> event then track_change stod pvar init_value True (w\<lparr>scopes := ss\<rparr>)
                   else (Inr False, w\<lparr>scopes := ss\<rparr>))"
    have vp: "vars_prevs (snd (register_var stod scope name t sz' init dup w)) = vars_prevs (snd c)"
      using u Inr pi by (auto simp: c_def[symmetric] split: prod.splits sum.splits)
    show ?thesis
    proof (cases "t = event")
      case True
      then show ?thesis using assms vp by (simp add: c_def)
    next
      case False
      then have "p \<in> set (vars_prevs (snd (track_change stod pvar init_value True (w\<lparr>scopes := ss\<rparr>))))"
        using assms vp by (simp add: c_def)
      from track_change_keys[OF this] show ?thesis using False key by auto
    qed
  qed
qed

text \<open>Every key of the tracker comes from a \<open>register_var\<close> call for that scope and name
  with a type other than \<open>event\<close>.\<close>

lemma tracker_keys_new: "tracker_keys [] (VCDWriter_new hdr ts0)"
  by (simp add: tracker_keys_def VCDWriter_new_def)

lemma tracker_keys_iff:
  "tracker_keys calls w =
     (\<forall>p \<in> set (vars_prevs w). \<exists>c \<in> set calls. registers_value (v_scope (fst p)) (v_name (fst p)) c)"
  by (simp add: tracker_keys_def list_all_iff list_ex_iff)

lemma exec_tracker_keys:
  assumes "tracker_keys cs w"
  shows "tracker_keys (cs @ [c]) (exec stod c w)"
  unfolding tracker_keys_iff
proof
  fix p assume p: "p \<in> set (vars_prevs (exec stod c w))"
  have old: "\<exists>c' \<in> set (cs @ [c]). registers_value (v_scope (fst p)) (v_name (fst p)) c'"
    if "fst p \<in> fst ` set (vars_prevs w)"
  proof -
    from that obtain p0 where "p0 \<in> set (vars_prevs w)" "fst p0 = fst p" by auto
    with assms show ?thesis by (fastforce simp: tracker_keys_iff)
  qed
  show "\<exists>c' \<in> set (cs @ [c]). registers_value (v_scope (fst p)) (v_name (fst p)) c'"
  proof (cases c)
    case (Register_var s n t sz' i d)
    with p register_var_keys[of p stod s n t sz' i d w]
    have "fst p \<in> fst ` set (vars_prevs w) \<or> (t \<noteq> event \<and> v_scope (fst p) = s \<and> v_name (fst p) = n)"
      by simp
    then show ?thesis
    proof
      assume "fst p \<in> fst ` set (vars_prevs w)"
      then show ?thesis by (rule old)
    next
      assume "t \<noteq> event \<and> v_scope (fst p) = s \<and> v_name (fst p) = n"
      then have "registers_value (v_scope (fst p)) (v_name (fst p)) c"
        using Register_var by (simp add: registers_value_def)
      then show ?thesis by auto
    qed
  next
    case (Change s n ts v)
    have "fst p \<in> fst ` set (vars_prevs w)"
    proof (cases "var s n w")
      case (Inl e)
      then show ?thesis using p Change by (simp add: change_not_found)
    next
      case (Inr x)
      then show ?thesis using p Change change'_keys[of p stod "Some x" ts v False w]
        by (simp add: change_eq_change')
    qed
    then show ?thesis by (rule old)
  next
    case (Set_scope_type s t)
    from set_scope_type_frame[of s t w] obtain ss where
      "snd (set_scope_type s t w) = w\<lparr>scopes := ss\<rparr>" by blast
    then have "fst p \<in> fst ` set (vars_prevs w)" using p Set_scope_type by simp
    then show ?thesis by (rule old)
  qed
qed

lemma run_tracker_keys:
  "tracker_keys pre w \<Longrightarrow> tracker_keys (pre @ cs) (run stod cs w)"
proof (induction cs arbitrary: pre w)
  case Nil
  then show ?case by simp
next
  case (Cons c cs)
  from exec_tracker_keys[OF Cons.prems, of c stod]
  have "tracker_keys ((pre @ [c]) @ cs) (run stod cs (exec stod c w))" by (rule Cons.IH)
  then show ?case by simp
qed





lemma first_registration_fresh:
  assumes "w = run stod calls (VCDWriter_new hdr ts0)"
    and "\<not> list_ex (registers_value scope name) calls"
  shows "vars_prevs_find (vars_prevs w) (search_key scope name) = None"
proof (rule ccontr)
  have "tracker_keys ([] @ calls) (run stod calls (VCDWriter_new hdr ts0))"
    by (rule run_tracker_keys) (rule tracker_keys_new)
  then have tk: "tracker_keys calls w" using assms(1) by simp
  assume "vars_prevs_find (vars_prevs w) (search_key scope name) \<noteq> None"
  then obtain it where "vars_prevs_find (vars_prevs w) (search_key scope name) = Some it" by auto
  from vars_prevs_find_key[OF this] have "it \<in> set (vars_prevs w)"
    "v_name (fst it) = name" "v_scope (fst it) = scope"
    by (simp_all add: VarPtrEqual_def search_key_def)
  with tk have "\<exists>c \<in> set calls. registers_value scope name c"
    by (auto simp: tracker_keys_iff)
  with assms(2) show False by (simp add: list_ex_iff)
qed




text \<open>The defaults in particular: for a type that needs a size, the initial value \<open>x\<close> is
  recorded as all-unknown.\<close>

lemma vector_all_unknown:
  assumes "0 < size'" "size' < 2 ^ 32"
  shows "vector_change_record size' (replicate size' UNDEF) = Inr (''b'' @ replicate size' UNDEF @ '' '')"
proof -
  let ?n = "size'"
  have b: "(?n + 2 ^ 64 - 1) mod 2 ^ 64 = ?n - 1"
  proof -
    have "(2::nat) ^ 32 < 2 ^ 64" by simp
    with assms(2) have lt: "?n < 2 ^ 64" by linarith
    have e: "?n + 2 ^ 64 - 1 = (?n - 1) + 2 ^ 64" using assms(1) by simp
    have "(?n - 1 + 2 ^ 64) mod 2 ^ 64 = (?n - 1) mod 2 ^ 64" by (rule mod_add_self2)
    also have "\<dots> = ?n - 1" using lt by (intro mod_less) simp
    finally show ?thesis by (simp only: e)
  qed
  have "\<forall>j. 1 \<le> j \<and> j < ?n - 1 \<longrightarrow> is_state ((''b'' @ replicate ?n UNDEF @ '' '') ! j)"
    by (auto simp: nth_append nth_Cons' is_state_def)
  then have v: "validate_loop (''b'' @ replicate ?n UNDEF @ '' '') 1 (?n - 1)
      = Inr (''b'' @ replicate ?n UNDEF @ '' '')"
    by (intro validate_loop_states) auto
  show ?thesis
    unfolding vector_change_record_def Let_def length_replicate b
    using assms(1) v by simp
qed

section \<open>The claim about event variables\<close>

text \<open>Claim C10, as amended. Take any sequence of calls, with scope names without NUL,
  in which the scope and name at hand are never registered with a type other than
  \<open>event\<close>; then the tracker has no entry for them. If the variable exists (so it was
  registered with type \<open>event\<close>), a \<open>change\<close> on it at a timestamp that is not below the
  current one, with a value that its encoder accepts, fails with the
  \<open>VCDTypeException\<close> that reports the variable as not registered.\<close>

theorem event_change_not_registered:
  assumes "list_all nul_free_call calls"
    and "w = run stod_g16 calls (VCDWriter_new hdr ts0)"
    and "\<not> list_ex (registers_value scope name) calls"
    and "var scope name w = Inr v"
    and "timestamp w \<le> timestamp'"
    and "change_record stod_g16 v value = Inr enc"
  shows "vars_prevs_find (vars_prevs w) v = None
       \<and> fst (change stod_g16 scope name timestamp' value w) = Inl (VCDTypeException NotRegistered)"
proof -
  have i: "writer_inv ts0 w" using assms(1,2) by (simp add: run_writer_inv)
  then have nc: "\<not> closed w" by (simp add: writer_inv_def)
  have "tracker_keys ([] @ calls) (run stod_g16 calls (VCDWriter_new hdr ts0))"
    by (rule run_tracker_keys) (rule tracker_keys_new)
  then have tk: "tracker_keys calls w" using assms(2) by simp
  have key: "v_name v = name" "v_scope v = scope"
    using assms(4)
    by (auto simp: var_def vars_find_def find_Some_iff VarPtrEqual_def search_key_def
             split: option.splits)
  have none: "vars_prevs_find (vars_prevs w) v = None"
  proof (rule ccontr)
    assume "vars_prevs_find (vars_prevs w) v \<noteq> None"
    then obtain it where "vars_prevs_find (vars_prevs w) v = Some it" by auto
    from vars_prevs_find_key[OF this] have "it \<in> set (vars_prevs w)"
      "v_name (fst it) = name" "v_scope (fst it) = scope"
      using key by (simp_all add: VarPtrEqual_def)
    with tk have "\<exists>c \<in> set calls. registers_value scope name c"
      by (auto simp: tracker_keys_iff)
    with assms(3) show False by (simp add: list_ex_iff)
  qed
  from time_advance_inv[OF i, of timestamp'] obtain d where
    ta: "time_advance timestamp' w = (Inr (), snd (time_advance timestamp' w))"
    and vp: "vars_prevs (snd (time_advance timestamp' w)) = vars_prevs w"
    by blast
  define w1 where "w1 = snd (time_advance timestamp' w)"
  have "change stod_g16 scope name timestamp' value w = track_change stod_g16 v value False w1"
    using assms(4,5) nc ta[folded w1_def] by (simp add: change_eq_change' change'_def)
  moreover have "fst (track_change stod_g16 v value False w1) = Inl (VCDTypeException NotRegistered)"
    using assms(6) none vp by (simp add: track_change_def w1_def)
  ultimately show ?thesis using none by simp
qed

theorem event_change_not_registered_witness:
  "fst (change no_stod ''top'' ''e'' 6 ''1'' (run no_stod calls3 (VCDWriter_new hdr0 0)))
     = Inl (VCDTypeException NotRegistered)"
proof -
  let ?v = "\<lparr>v_ident = 0, v_type = event, v_name = ''e'', v_size = 1, v_scope = ''top'',
             v_class = VCDScalarVariable\<rparr>"
  have a: "list_all nul_free_call calls3" by (simp add: nul_free_call_def nul_free_def)
  have b: "\<not> list_ex (registers_value ''top'' ''e'') calls3" by (simp add: registers_value_def)
  have c: "var ''top'' ''e'' (run no_stod calls3 (VCDWriter_new hdr0 0)) = Inr ?v"
    by (simp add: writer_defs encoders chars)
  have d: "timestamp (run no_stod calls3 (VCDWriter_new hdr0 0)) \<le> 6"
    by (simp add: writer_defs encoders chars)
  have e: "change_record no_stod ?v ''1'' = Inr ''1''" by (simp add: encoders chars)
  from event_change_not_registered[OF a refl b c d e] show ?thesis by simp
qed

text \<open>Claim C10 as stated has every later \<open>change\<close> on an event variable fail with that
  exception. The checks that come first in the source answer first: a timestamp below
  the current one gives the \<open>VCDPhaseException\<close> for changes out of order, and a value that
  is no scalar gives the \<open>VCDTypeException\<close> of the encoder. And when the same scope and name
  are then registered for a wire, the registration is refused as a duplicate after its
  implicit change has entered the key into the tracker, and a \<open>change\<close> on the event variable
  returns true. With scope names that hold a NUL byte, a \<open>change\<close> that advances the time
  ends in the \<open>std::out_of_range\<close> of \<open>_write_header\<close>.\<close>

theorem event_change_counterexample:
  "fst (change no_stod ''top'' ''e'' 3 ''1'' (run no_stod calls3 (VCDWriter_new hdr0 0)))
     = Inl (VCDPhaseException OutOfOrder)
   \<and> fst (change no_stod ''top'' ''e'' 6 ''10'' (run no_stod calls3 (VCDWriter_new hdr0 0)))
     = Inl (VCDTypeException InvalidScalarValue)
   \<and> fst (register_var no_stod ''top'' ''e'' wire 1 ''0'' True
            (snd (register_var no_stod ''top'' ''e'' event 0 ''x'' True (VCDWriter_new hdr0 0))))
     = Inl (VCDTypeException DuplicateVar)
   \<and> fst (change no_stod ''top'' ''e'' 0 ''1''
            (run no_stod [Register_var ''top'' ''e'' event 0 ''x'' True,
                          Register_var ''top'' ''e'' wire 1 ''0'' True] (VCDWriter_new hdr0 0)))
     = Inr True
   \<and> fst (change no_stod nul_scope2 ''e'' 1 ''1''
            (run no_stod (nul_calls @ [Register_var nul_scope2 ''e'' event 0 ''x'' True])
               (VCDWriter_new hdr0 0)))
     = Inl StdOutOfRange"
  by (simp add: writer_defs encoders chars)

end
